theory Spec2Isabelle
  imports Main "HOL-Library.Sublist"
begin

section \<open>Strings\<close>

text \<open>
  A Python \<open>str\<close> is modelled as a \<open>string\<close>: a list of characters, each a code
  point below 256.  The character classes below are those of CPython on that range.
\<close>

definition newline :: char where
  "newline = CHR 0x0A"

text \<open>\<open>str.isspace\<close>: the characters \<open>str.strip()\<close> removes.\<close>

definition is_space :: "char \<Rightarrow> bool" where
  "is_space c = (let n = (of_char c :: nat) in
     (9 \<le> n \<and> n \<le> 13) \<or> (28 \<le> n \<and> n \<le> 32) \<or> n = 133 \<or> n = 160)"

text \<open>\<open>\d\<close> of a \<open>str\<close> pattern: the decimal digits.\<close>

definition is_digit :: "char \<Rightarrow> bool" where
  "is_digit c = (let n = (of_char c :: nat) in 48 \<le> n \<and> n \<le> 57)"

text \<open>\<open>\w\<close> of a \<open>str\<close> pattern: \<open>str.isalnum\<close> or the underscore.\<close>

definition is_word :: "char \<Rightarrow> bool" where
  "is_word c = (let n = (of_char c :: nat) in
     (48 \<le> n \<and> n \<le> 57) \<or> (65 \<le> n \<and> n \<le> 90) \<or> n = 95 \<or> (97 \<le> n \<and> n \<le> 122) \<or>
     n = 170 \<or> n = 178 \<or> n = 179 \<or> n = 181 \<or> n = 185 \<or> n = 186 \<or>
     n = 188 \<or> n = 189 \<or> n = 190 \<or>
     (192 \<le> n \<and> n \<le> 214) \<or> (216 \<le> n \<and> n \<le> 246) \<or> 248 \<le> n)"

text \<open>\<open>s.strip()\<close>\<close>

definition strip :: "string \<Rightarrow> string" where
  "strip s = rev (dropWhile is_space (rev (dropWhile is_space s)))"

text \<open>\<open>sub in s\<close> on strings: \<open>sub\<close> occurs in \<open>s\<close> as a contiguous block.\<close>

fun contains :: "string \<Rightarrow> string \<Rightarrow> bool" where
  "contains sub [] = (sub = [])"
| "contains sub (c # cs) = (prefix sub (c # cs) \<or> contains sub cs)"

section \<open>Regular expressions\<close>

text \<open>
  The three patterns of the program use literals, greedy repetitions of a character
  class (\<open>\d{1,3}\<close>, \<open>\d{2,4}\<close>, \<open>\d+\<close>, \<open>\w+\<close>, \<open>.*\<close>), capture groups that
  are not nested, and the anchors \<open>^\<close> and \<open>$\<close>.  A pattern is the list of its items in
  the order they are written.
\<close>

datatype cclass = Digit | Word | Dot

fun in_class :: "cclass \<Rightarrow> char \<Rightarrow> bool" where
  "in_class Digit c = is_digit c"
| "in_class Word c = is_word c"
| "in_class Dot c = (c \<noteq> newline)"

datatype item =
    Lit string
  | Rep cclass nat "nat option"
  | Open
  | Close
  | Bol
  | Eol

text \<open>
  A state of the matcher: the position in the subject, the start positions of the
  groups that are open, and the spans of the groups closed so far.
\<close>

type_synonym mstate = "nat \<times> nat list \<times> (nat \<times> nat) list"

text \<open>
  How many characters a greedy repetition can take at most: the run of characters of
  the class at the head of the rest of the subject, cut at the upper bound.
\<close>

definition run_len :: "cclass \<Rightarrow> nat option \<Rightarrow> string \<Rightarrow> nat" where
  "run_len c hi s =
     (let n = length (takeWhile (in_class c) s)
      in case hi of None \<Rightarrow> n | Some h \<Rightarrow> min h n)"

text \<open>
  The backtracking search of \<open>re\<close>: \<open>bt p subj st\<close> lists the states in which the
  items \<open>p\<close> can finish from \<open>st\<close>, in the order the engine tries them (a greedy
  repetition tries its longest run first and gives characters back one at a time).
  The engine returns the first of them.  \<open>$\<close> matches at the end of the subject and
  before a newline that ends it.
\<close>

fun bt :: "item list \<Rightarrow> string \<Rightarrow> mstate \<Rightarrow> mstate list" where
  "bt [] subj st = [st]"
| "bt (Lit l # p) subj (i, os, gs) =
     (if take (length l) (drop i subj) = l then bt p subj (i + length l, os, gs) else [])"
| "bt (Rep c lo hi # p) subj (i, os, gs) =
     concat (map (\<lambda>k. bt p subj (i + k, os, gs))
                 (rev [lo ..< Suc (run_len c hi (drop i subj))]))"
| "bt (Open # p) subj (i, os, gs) = bt p subj (i, i # os, gs)"
| "bt (Close # p) subj (i, os, gs) =
     (case os of
        [] \<Rightarrow> bt p subj (i, [], gs)
      | b # os' \<Rightarrow> bt p subj (i, os', gs @ [(b, i)]))"
| "bt (Bol # p) subj (i, os, gs) = (if i = 0 then bt p subj (i, os, gs) else [])"
| "bt (Eol # p) subj (i, os, gs) =
     (if i = length subj \<or> (Suc i = length subj \<and> subj ! i = newline)
      then bt p subj (i, os, gs) else [])"

text \<open>\<open>s[i:j]\<close> for \<open>0 \<le> i \<le> j\<close>\<close>

definition slice :: "string \<Rightarrow> nat \<Rightarrow> nat \<Rightarrow> string" where
  "slice s i j = take (j - i) (drop i s)"

text \<open>The texts of the groups of a match, \<open>m.group(1)\<close>, \<open>m.group(2)\<close>, ...\<close>

definition group_texts :: "string \<Rightarrow> mstate \<Rightarrow> string list" where
  "group_texts subj st = map (\<lambda>(b, e). slice subj b e) (snd (snd st))"

text \<open>\<open>re.match(p, subj)\<close>: the search anchored at position 0.\<close>

definition re_match :: "item list \<Rightarrow> string \<Rightarrow> string list option" where
  "re_match p subj =
     (case bt p subj (0, [], []) of
        [] \<Rightarrow> None
      | st # _ \<Rightarrow> Some (group_texts subj st))"

text \<open>\<open>re.search(p, subj)\<close>: the first start position, from the left, with a match.\<close>

fun search_from :: "item list \<Rightarrow> string \<Rightarrow> nat list \<Rightarrow> string list option" where
  "search_from p subj [] = None"
| "search_from p subj (i # is) =
     (case bt p subj (i, [], []) of
        [] \<Rightarrow> search_from p subj is
      | st # _ \<Rightarrow> Some (group_texts subj st))"

definition re_search :: "item list \<Rightarrow> string \<Rightarrow> string list option" where
  "re_search p subj = search_from p subj [0 ..< Suc (length subj)]"

section \<open>The outside world\<close>

text \<open>
  The program talks to its surroundings through the environment variables, the commands
  it runs with \<open>subprocess.run\<close>, the tunnel it starts with \<open>subprocess.Popen\<close>, the
  temporary file of the job script, standard output, the browser and the clock.
  A \<open>world\<close> fixes what the surroundings answer: \<open>proc w n argv\<close> is the return code
  and the decoded standard output and standard error of the \<open>n\<close>-th command the
  program runs, when that command is \<open>argv\<close>; \<open>sigint w n\<close> says whether the user
  interrupts the program at the \<open>n\<close>-th point where it blocks (\<open>time.sleep\<close> in the
  polling loop and \<open>ssh_t.wait()\<close>).  A \<open>state\<close> records what the program has done so
  far.
\<close>

datatype error =
    RuntimeError string
  | SystemExit int
  | KeyboardInterrupt
  | UnboundLocalError string
  | IndexError string

datatype event =
    Exec "string list"
  | Print string
  | Write string
  | Flush
  | Sleep
  | MkTemp string
  | WriteFile string string
  | Popen "string list"
  | Browser string
  | Wait

record world =
  environ :: "string \<Rightarrow> string option"
  tmp_name :: string
  proc :: "nat \<Rightarrow> string list \<Rightarrow> int \<times> string \<times> string"
  sigint :: "nat \<Rightarrow> bool"

record state =
  trace :: "event list"
  nrun :: nat
  nblock :: nat

type_synonym 'a result = "(error + 'a) \<times> state"

definition emit :: "event \<Rightarrow> state \<Rightarrow> state" where
  "emit ev s = s\<lparr>trace := trace s @ [ev]\<rparr>"

text \<open>Sequencing: an exception of the first step ends the computation.\<close>

definition bnd :: "'a result \<Rightarrow> ('a \<Rightarrow> state \<Rightarrow> 'b result) \<Rightarrow> 'b result" where
  "bnd r f = (case r of (Inl e, s) \<Rightarrow> (Inl e, s) | (Inr x, s) \<Rightarrow> f x s)"

text \<open>A point where the program blocks and a \<open>KeyboardInterrupt\<close> can arrive.\<close>

definition block :: "world \<Rightarrow> event \<Rightarrow> state \<Rightarrow> unit result" where
  "block w ev s =
     (let s' = (emit ev s)\<lparr>nblock := Suc (nblock s)\<rparr>
      in if sigint w (nblock s) then (Inl KeyboardInterrupt, s') else (Inr (), s'))"

section \<open>Library functions\<close>

text \<open>\<open>sep.join(xs)\<close>\<close>

fun join :: "string \<Rightarrow> string list \<Rightarrow> string" where
  "join sep [] = []"
| "join sep [x] = x"
| "join sep (x # y # ys) = x @ sep @ join sep (y # ys)"

text \<open>\<open>os.path.join\<close> of two components, and of a list of them, on POSIX.\<close>

definition path_join2 :: "string \<Rightarrow> string \<Rightarrow> string" where
  "path_join2 a b =
     (if prefix ''/'' b then b
      else if a = [] \<or> last a = CHR ''/'' then a @ b
      else a @ ''/'' @ b)"

definition path_join :: "string \<Rightarrow> string list \<Rightarrow> string" where
  "path_join a ps = foldl path_join2 a ps"

text \<open>\<open>os.path.basename\<close>\<close>

definition basename :: "string \<Rightarrow> string" where
  "basename p = rev (takeWhile (\<lambda>c. c \<noteq> CHR ''/'') (rev p))"

text \<open>\<open>m.group(n)\<close> for \<open>n \<ge> 1\<close>, on the list of the texts of the groups.\<close>

definition match_group :: "string list \<Rightarrow> nat \<Rightarrow> error + string" where
  "match_group gs n =
     (if 0 < n \<and> n \<le> length gs then Inr (gs ! (n - 1)) else Inl (IndexError ''no such group''))"

section \<open>The program\<close>

text \<open>\<open>SLURM_JOB.format(a0, a1, a2, a3, a4)\<close>\<close>

definition SLURM_JOB :: "string \<Rightarrow> string \<Rightarrow> string \<Rightarrow> string \<Rightarrow> string \<Rightarrow> string" where
  "SLURM_JOB a0 a1 a2 a3 a4 = concat (map (\<lambda>l. l @ [newline])
     [''#!/bin/sh'',
      ''#SBATCH --job-name '' @ a0,
      ''#SBATCH --error .'' @ a0 @ ''/'' @ a0 @ ''-%j.error'',
      ''#SBATCH --output .'' @ a0 @ ''/'' @ a0 @ ''-%j.out'',
      ''#SBATCH -N 1'',
      ''#SBATCH --cpus-per-task 1'',
      ''#SBATCH -n 1'',
      ''#SBATCH --partition '' @ a1,
      ''#SBATCH --time '' @ a2,
      [],
      ''source '' @ a3,
      ''ip=`hostname`'',
      ''cd '' @ a4,
      ''jupyter-notebook --no-browser --port=9700 --ip=$ip''])"

text \<open>
  \<open>get_var\<close>: the variable when the environment has it; otherwise the default when it
  is truthy (\<open>elif default:\<close>, so neither \<open>None\<close> nor the empty string); otherwise the
  exception.
\<close>

definition get_var :: "world \<Rightarrow> string \<Rightarrow> string option \<Rightarrow> error + string" where
  "get_var w var dflt =
     (case environ w var of
        Some v \<Rightarrow> Inr v
      | None \<Rightarrow>
          (case dflt of
             Some d \<Rightarrow>
               if d \<noteq> [] then Inr d
               else Inl (RuntimeError (''Please set '' @ var @ '' environment variable''))
           | None \<Rightarrow> Inl (RuntimeError (''Please set '' @ var @ '' environment variable''))))"

definition run :: "world \<Rightarrow> string list \<Rightarrow> bool \<Rightarrow> bool \<Rightarrow> state \<Rightarrow> (int \<times> string \<times> string) result" where
  "run w cmd_list local debug s =
     (case get_var w ''CLUSTER'' None of
        Inl e \<Rightarrow> (Inl e, s)
      | Inr cluster \<Rightarrow>
          (let cmd = (if \<not> local then [''ssh'', cluster] @ cmd_list else cmd_list);
               (returncode, out, err) = proc w (nrun s) cmd;
               s1 = (emit (Exec cmd) s)\<lparr>nrun := Suc (nrun s)\<rparr>;
               s2 = (if debug then emit (Print (''Executing command: '' @ join '' '' cmd)) s1 else s1);
               s3 = (if returncode \<noteq> 0 then emit (Print (strip err)) s2 else s2)
           in (Inr (returncode, strip out, strip err), s3)))"

definition create_job_script :: "world \<Rightarrow> state \<Rightarrow> string result" where
  "create_job_script w s =
     (let s1 = emit (MkTemp (tmp_name w)) s in
      case get_var w ''PYTHON_VENV'' None of
        Inl e \<Rightarrow> (Inl e, s1)
      | Inr venv \<Rightarrow>
          (case get_var w ''WORKDIR'' (Some ''~'') of
             Inl e \<Rightarrow> (Inl e, s1)
           | Inr workdir \<Rightarrow>
               (let text = SLURM_JOB ''jupyterhpc'' ''cpu'' ''3:00:00''
                             (path_join venv [''bin'', ''activate'']) workdir;
                    s2 = emit (WriteFile (tmp_name w) text) s1;
                    s3 = emit (Print (''SLURM script generated: '' @ tmp_name w)) s2
                in (Inr (tmp_name w), s3))))"

definition send_job_script :: "world \<Rightarrow> string \<Rightarrow> state \<Rightarrow> unit result" where
  "send_job_script w script_path s =
     (case get_var w ''CLUSTER'' None of
        Inl e \<Rightarrow> (Inl e, s)
      | Inr cluster \<Rightarrow>
          bnd (run w [''scp'', script_path, cluster @ '':/tmp/''] True False s)
              (\<lambda>(ret, outs, err) s'. (Inr (), s')))"

definition check_job_dir :: "world \<Rightarrow> state \<Rightarrow> bool result" where
  "check_job_dir w s =
     bnd (run w [''ls'', ''.jupyterhpc''] False False (emit (Print ''Checking job directory'') s))
         (\<lambda>(ret, outs, err) s'.
            if ret \<noteq> 0 then (Inr False, emit (Print ''jupyterhpc directory does not exist'') s')
            else (Inr True, emit (Print ''jupyterhpc configuration exist'') s'))"

text \<open>\<open>Submitted batch job (\d+)\<close>\<close>

definition job_pattern :: "item list" where
  "job_pattern = [Lit ''Submitted batch job '', Open, Rep Digit 1 None, Close]"

definition launch_job :: "world \<Rightarrow> string \<Rightarrow> state \<Rightarrow> string result" where
  "launch_job w script_name s =
     bnd (run w [''sbatch'', ''/tmp/'' @ script_name] False False (emit (Print ''Launching job'') s))
         (\<lambda>(ret, outs, err) s'.
            if ret = 0 then
              (let s'' = emit (Print ''Job submitted'') s' in
               case re_match job_pattern outs of
                 Some gs \<Rightarrow>
                   (case match_group gs 1 of
                      Inl e \<Rightarrow> (Inl e, s'')
                    | Inr job_id \<Rightarrow> (Inr job_id, s''))
               | None \<Rightarrow> (Inl (RuntimeError outs), s''))
            else (Inl (RuntimeError outs), s'))"

definition check_jobfailure :: "world \<Rightarrow> string \<Rightarrow> state \<Rightarrow> bool result" where
  "check_jobfailure w job_id s =
     bnd (run w [''sacct'', ''-j'', job_id, ''-n''] False False s)
         (\<lambda>(ret, outs, err) s'. (Inr (contains ''FAILED'' outs), s'))"

definition get_node :: "world \<Rightarrow> string \<Rightarrow> state \<Rightarrow> string result" where
  "get_node w job_id s =
     bnd (run w [''squeue'', ''-j'', job_id, ''-h'', ''--format'', ''%N''] False False s)
         (\<lambda>(ret, outs, err) s'.
            if ret = 0 then (Inr (strip outs), s') else (Inl (RuntimeError outs), s'))"

definition delete_job :: "world \<Rightarrow> string \<Rightarrow> state \<Rightarrow> unit result" where
  "delete_job w job_id s =
     bnd (run w [''scancel'', job_id] False False (emit (Print ''Deleting job'') s))
         (\<lambda>(ret, outs, err) s'.
            if ret = 0 then (Inr (), emit (Print ''Job CANCELLED'') s')
            else (Inl (RuntimeError outs), s'))"

text \<open>
  \<open>.*(http://\d{1,3}\.\d{1,3}\.\d{1,3}\.\d{1,3}:\d{2,4}/\?token=\w+).*\<close>
\<close>

definition url_search_pattern :: "item list" where
  "url_search_pattern =
     [Rep Dot 0 None, Open,
      Lit ''http://'',
      Rep Digit 1 (Some 3), Lit ''.'', Rep Digit 1 (Some 3), Lit ''.'',
      Rep Digit 1 (Some 3), Lit ''.'', Rep Digit 1 (Some 3),
      Lit '':'', Rep Digit 2 (Some 4), Lit ''/?token='', Rep Word 1 None,
      Close, Rep Dot 0 None]"

text \<open>
  The part of \<open>get_jupyter_url\<close> after the command: from the text of the error file to
  the URL, or to the empty string.
\<close>

definition jupyter_url :: "string \<Rightarrow> error + string" where
  "jupyter_url outs =
     (if \<not> contains ''token'' outs then Inr []
      else case re_search url_search_pattern outs of
             None \<Rightarrow> Inr []
           | Some gs \<Rightarrow> match_group gs 1)"

definition error_file :: "string \<Rightarrow> string" where
  "error_file job_id = path_join ''.jupyterhpc'' [''jupyterhpc-'' @ job_id @ ''.error'']"

definition get_jupyter_url :: "world \<Rightarrow> string \<Rightarrow> state \<Rightarrow> string result" where
  "get_jupyter_url w job_id s =
     bnd (run w [''cat'', error_file job_id] False False s)
         (\<lambda>(ret, outs, err) s'.
            (let s'' = (if ret \<noteq> 0 then emit (Write (CHR 0x0D # ''Job has not started'')) s' else s')
             in case jupyter_url outs of
                  Inl e \<Rightarrow> (Inl e, s'')
                | Inr url \<Rightarrow> (Inr url, s'')))"

text \<open>
  One turn of the \<open>while not url\<close> loop of \<open>main\<close>; \<open>count\<close> is the counter before
  the turn.  The turn gives the new \<open>url\<close>, or ends the program.
\<close>

definition poll_body :: "world \<Rightarrow> string \<Rightarrow> nat \<Rightarrow> state \<Rightarrow> string result" where
  "poll_body w job_id count s =
     bnd (block w Sleep s)
         (\<lambda>_ s1.
            (let s2 = emit Flush (emit (Write (CHR 0x0D # ''+ Waiting URL ...   '')) s1);
                 s3 = (if Suc count mod 2 = 0 then emit (Write (CHR 0x0D # ''.'')) s2 else s2)
             in bnd (get_jupyter_url w job_id s3)
                    (\<lambda>url s4.
                       bnd (check_jobfailure w job_id s4)
                           (\<lambda>failed s5.
                              if failed then
                                (Inl (SystemExit 1),
                                 emit (Print (''Job '' @ job_id @ '' failed please have a look at: ~/''
                                              @ error_file job_id)) s5)
                              else (Inr url, s5)))))"

text \<open>
  The loop.  It has no bound on the number of turns, so a run of the loop that never
  ends has the value \<open>None\<close>.
\<close>

partial_function (option) poll :: "world \<Rightarrow> string \<Rightarrow> nat \<Rightarrow> state \<Rightarrow> string result option" where
  "poll w job_id count s =
     (case poll_body w job_id count s of
        (Inl e, s') \<Rightarrow> Some (Inl e, s')
      | (Inr url, s') \<Rightarrow> if url = [] then poll w job_id (Suc count) s' else Some (Inr url, s'))"

text \<open>
  \<open>^http://(\d{1,3}\.\d{1,3}\.\d{1,3}\.\d{1,3}):(\d{2,4})/\?token=(\w+)$\<close>
\<close>

definition url_match_pattern :: "item list" where
  "url_match_pattern =
     [Bol, Lit ''http://'', Open,
      Rep Digit 1 (Some 3), Lit ''.'', Rep Digit 1 (Some 3), Lit ''.'',
      Rep Digit 1 (Some 3), Lit ''.'', Rep Digit 1 (Some 3),
      Close, Lit '':'', Open, Rep Digit 2 (Some 4), Close,
      Lit ''/?token='', Open, Rep Word 1 None, Close, Eol]"

text \<open>
  The second parse of the URL in \<open>main\<close>: the values of \<open>ip\<close>, \<open>port\<close> and \<open>token\<close>
  when \<open>data\<close> is a match, and \<open>None\<close> when the three names stay unbound.
\<close>

definition parse_url :: "string \<Rightarrow> error + (string \<times> string \<times> string) option" where
  "parse_url url =
     (case re_match url_match_pattern url of
        None \<Rightarrow> Inr None
      | Some gs \<Rightarrow>
          (case match_group gs 1 of
             Inl e \<Rightarrow> Inl e
           | Inr ip \<Rightarrow>
               (case match_group gs 2 of
                  Inl e \<Rightarrow> Inl e
                | Inr port \<Rightarrow>
                    (case match_group gs 3 of
                       Inl e \<Rightarrow> Inl e
                     | Inr token \<Rightarrow> Inr (Some (ip, port, token))))))"

text \<open>
  \<open>main\<close> after the loop: the parse, the node query, the tunnel, the browser, and
  the wait on the tunnel with its \<open>KeyboardInterrupt\<close> handler.  The name \<open>ip\<close> is
  bound again by \<open>get_node\<close>; \<open>port\<close> is the first unbound name that is read when
  \<open>data\<close> is not a match.
\<close>

definition connect :: "world \<Rightarrow> string \<Rightarrow> string \<Rightarrow> state \<Rightarrow> unit result" where
  "connect w job_id url s =
     (case parse_url url of
        Inl e \<Rightarrow> (Inl e, s)
      | Inr data \<Rightarrow>
          bnd (get_node w job_id s)
              (\<lambda>ip s1.
                 case data of
                   None \<Rightarrow> (Inl (UnboundLocalError ''port''), s1)
                 | Some (ip0, port, token) \<Rightarrow>
                     (let s2 = emit (Print (''Opening SSH tunel on node '' @ ip @ '' and port '' @ port)) s1;
                          s3 = emit (Print (''Jupyter token: '' @ token)) s2
                      in case get_var w ''CLUSTER'' None of
                           Inl e \<Rightarrow> (Inl e, s3)
                         | Inr cluster \<Rightarrow>
                             (let cmd = [''ssh'', ''-N'', cluster, ''-L'', ''8080:'' @ ip @ '':'' @ port];
                                  s4 = emit (Popen cmd) s3;
                                  s5 = emit (Browser (''http://127.0.0.1:8080/?token='' @ token)) s4
                              in case block w Wait s5 of
                                   (Inl KeyboardInterrupt, s6) \<Rightarrow> delete_job w job_id s6
                                 | r \<Rightarrow> r))))"

definition submit :: "world \<Rightarrow> state \<Rightarrow> string result" where
  "submit w s =
     bnd (create_job_script w s)
         (\<lambda>script_path s1.
            bnd (send_job_script w script_path s1)
                (\<lambda>_ s2.
                   bnd (launch_job w (basename script_path) s2)
                       (\<lambda>job_id s3. (Inr job_id, emit (Print (''Got job id '' @ job_id)) s3))))"

definition main :: "world \<Rightarrow> state \<Rightarrow> unit result option" where
  "main w s =
     (case submit w s of
        (Inl e, s1) \<Rightarrow> Some (Inl e, s1)
      | (Inr job_id, s1) \<Rightarrow>
          (case poll w job_id 0 s1 of
             None \<Rightarrow> None
           | Some (Inl e, s2) \<Rightarrow> Some (Inl e, s2)
           | Some (Inr url, s2) \<Rightarrow> Some (connect w job_id url s2)))"

definition init :: state where
  "init = \<lparr>trace = [], nrun = 0, nblock = 0\<rparr>"

section \<open>The languages of the patterns\<close>

text \<open>
  The texts a pattern matches as a whole, apart from its groups and anchors: a literal
  is itself, and a repetition is between its bounds many characters of its class.
\<close>

fun plain_item :: "item \<Rightarrow> bool" where
  "plain_item (Lit l) = True"
| "plain_item (Rep c lo hi) = True"
| "plain_item _ = False"

definition within :: "nat option \<Rightarrow> nat \<Rightarrow> bool" where
  "within hi k = (case hi of None \<Rightarrow> True | Some h \<Rightarrow> k \<le> h)"

fun lang :: "item list \<Rightarrow> string \<Rightarrow> bool" where
  "lang [] u = (u = [])"
| "lang (Lit l # p) u = (prefix l u \<and> lang p (drop (length l) u))"
| "lang (Rep c lo hi # p) u =
     list_ex (\<lambda>k. within hi k \<and> list_all (in_class c) (take k u) \<and> lang p (drop k u))
             [lo ..< Suc (length u)]"
| "lang (_ # p) u = lang p u"

text \<open>
  The grammar of the URL: four groups of one to three digits, a port of two to four
  digits, a token of one or more word characters.
\<close>

definition quad :: "string \<Rightarrow> bool" where
  "quad q = (1 \<le> length q \<and> length q \<le> 3 \<and> list_all is_digit q)"

definition port_ok :: "string \<Rightarrow> bool" where
  "port_ok p = (2 \<le> length p \<and> length p \<le> 4 \<and> list_all is_digit p)"

definition token_ok :: "string \<Rightarrow> bool" where
  "token_ok t = (1 \<le> length t \<and> list_all is_word t)"

definition ip_core :: "item list" where
  "ip_core =
     [Rep Digit 1 (Some 3), Lit ''.'', Rep Digit 1 (Some 3), Lit ''.'',
      Rep Digit 1 (Some 3), Lit ''.'', Rep Digit 1 (Some 3)]"

definition url_core :: "item list" where
  "url_core =
     Lit ''http://'' # ip_core @ [Lit '':'', Rep Digit 2 (Some 4), Lit ''/?token='', Rep Word 1 None]"

section \<open>Reading a run\<close>

text \<open>The commands a state has run, in order.\<close>

fun commands_of :: "event list \<Rightarrow> string list list" where
  "commands_of [] = []"
| "commands_of (Exec argv # evs) = argv # commands_of evs"
| "commands_of (_ # evs) = commands_of evs"

definition commands :: "state \<Rightarrow> string list list" where
  "commands s = commands_of (trace s)"

text \<open>The commands of the program, as they reach the cluster.\<close>

definition cat_cmd :: "string \<Rightarrow> string \<Rightarrow> string list" where
  "cat_cmd cluster job_id = [''ssh'', cluster, ''cat'', error_file job_id]"

definition sacct_cmd :: "string \<Rightarrow> string \<Rightarrow> string list" where
  "sacct_cmd cluster job_id = [''ssh'', cluster, ''sacct'', ''-j'', job_id, ''-n'']"

definition squeue_cmd :: "string \<Rightarrow> string \<Rightarrow> string list" where
  "squeue_cmd cluster job_id = [''ssh'', cluster, ''squeue'', ''-j'', job_id, ''-h'', ''--format'', ''%N'']"

definition scancel_cmd :: "string \<Rightarrow> string \<Rightarrow> string list" where
  "scancel_cmd cluster job_id = [''ssh'', cluster, ''scancel'', job_id]"

definition sbatch_cmd :: "string \<Rightarrow> string \<Rightarrow> string list" where
  "sbatch_cmd cluster script_name = [''ssh'', cluster, ''sbatch'', ''/tmp/'' @ script_name]"

text \<open>A polling command: the read of the error file or the accounting query.\<close>

fun is_poll :: "string list \<Rightarrow> bool" where
  "is_poll (a # b # c # rest) = (c = ''cat'' \<or> c = ''sacct'')"
| "is_poll _ = False"

definition polls :: "state \<Rightarrow> string list list" where
  "polls s = filter is_poll (commands s)"

text \<open>
  The state before the \<open>n\<close>-th turn of the loop, when the turns before it ended
  without a URL and without ending the program.
\<close>

fun turn_state :: "world \<Rightarrow> string \<Rightarrow> nat \<Rightarrow> state \<Rightarrow> nat \<Rightarrow> state" where
  "turn_state w job_id count s 0 = s"
| "turn_state w job_id count s (Suc n) =
     snd (poll_body w job_id (count + n) (turn_state w job_id count s n))"

text \<open>
  What the \<open>k\<close>-th turn of a loop that starts in state \<open>s\<close> reads: the text of the
  error file and the text of the accounting query, as \<open>run\<close> returns them.
\<close>

definition log_at :: "world \<Rightarrow> string \<Rightarrow> string \<Rightarrow> state \<Rightarrow> nat \<Rightarrow> string" where
  "log_at w cluster job_id s k =
     strip (fst (snd (proc w (nrun s + 2 * k) (cat_cmd cluster job_id))))"

definition acct_at :: "world \<Rightarrow> string \<Rightarrow> string \<Rightarrow> state \<Rightarrow> nat \<Rightarrow> string" where
  "acct_at w cluster job_id s k =
     strip (fst (snd (proc w (nrun s + 2 * k + 1) (sacct_cmd cluster job_id))))"

section \<open>A session\<close>

text \<open>
  A world in which the job is submitted as job 4821, the error file is missing at the
  first turn of the loop and holds the URL at the second, the job runs on node05, and
  the user interrupts the wait on the tunnel.
\<close>

definition scenario_proc :: "nat \<Rightarrow> string list \<Rightarrow> int \<times> string \<times> string" where
  "scenario_proc n argv =
     (if n = 0 then (0, [], [])
      else if n = 1 then (0, ''Submitted batch job 4821'' @ [newline], [])
      else if n = 2 then (1, [], ''cat: .jupyterhpc/jupyterhpc-4821.error: No such file or directory'' @ [newline])
      else if n = 3 then (0, [], [])
      else if n = 4 then (0, ''[I 10:21:07 NotebookApp] http://10.0.0.5:9700/?token=abc123 :: ready'' @ [newline], [])
      else if n = 5 then (0, ''4821 jupyterhpc cpu RUNNING 0:0'' @ [newline], [])
      else if n = 6 then (0, ''node05'' @ [newline], [])
      else (0, [], []))"

definition scenario :: world where
  "scenario = \<lparr>environ = [''CLUSTER'' \<mapsto> ''hpc1'', ''PYTHON_VENV'' \<mapsto> ''/home/u/venv''],
               tmp_name = ''/tmp/jupyterhpc_x3k2'',
               proc = scenario_proc,
               sigint = (\<lambda>n. n = 2)\<rparr>"

text \<open>
  The same session, except that the accounting query of the second turn reports the
  job as failed while the error file holds the URL.
\<close>

definition failing :: world where
  "failing = scenario\<lparr>proc :=
     (\<lambda>n argv. if n = 5 then (0, ''4821 jupyterhpc cpu FAILED 1:0'' @ [newline], [])
                else scenario_proc n argv)\<rparr>"

text \<open>The state of \<open>main\<close> when it enters the loop in these sessions.\<close>

definition submitted :: state where
  "submitted = snd (submit scenario init)"

text \<open>The session of \<open>scenario\<close>, interrupted in the first sleep of the loop.\<close>

definition interrupted :: world where
  "interrupted = scenario\<lparr>sigint := (\<lambda>n. n = 0)\<rparr>"

text \<open>The text of a URL with its three parts, and the hosts of the grammar.\<close>

definition url_text :: "string \<Rightarrow> string \<Rightarrow> string \<Rightarrow> string" where
  "url_text ip port token = ''http://'' @ ip @ '':'' @ port @ ''/?token='' @ token"

definition ipv4 :: "string \<Rightarrow> bool" where
  "ipv4 ip = lang ip_core ip"

text \<open>
  The session of \<open>scenario\<close>, except that the scheduler prints a note before the line
  of the job id.
\<close>

definition noisy :: world where
  "noisy = scenario\<lparr>proc :=
     (\<lambda>n argv. if n = 1
                then (0, ''sbatch: note: partition set to cpu'' @ [newline] @
                         ''Submitted batch job 4821'' @ [newline], [])
                else scenario_proc n argv)\<rparr>"

text \<open>The part of the URL before the token.\<close>

definition url_head :: "item list" where
  "url_head = Lit ''http://'' # ip_core @ [Lit '':'', Rep Digit 2 (Some 4), Lit ''/?token='']"

text \<open>The pattern of the search after its first \<open>.*\<close>: the group and the last \<open>.*\<close>.\<close>

definition url_group :: "item list" where
  "url_group = Open # url_core @ [Close, Rep Dot 0 None]"

text \<open>A URL of the grammar stands at the head of \<open>t\<close>: a prefix of \<open>t\<close> is one.\<close>

definition url_here :: "string \<Rightarrow> bool" where
  "url_here t = list_ex (\<lambda>k. lang url_core (take k t)) [0 ..< Suc (length t)]"

text \<open>A URL of the grammar occurs in \<open>t\<close>.\<close>

definition holds_url :: "string \<Rightarrow> bool" where
  "holds_url t = list_ex (\<lambda>q. url_here (drop q t)) [0 ..< Suc (length t)]"

text \<open>
  Position \<open>p\<close> is on the first line of \<open>outs\<close> on which a URL of the grammar starts, and
  no URL starts later on that line: a URL that starts at or before \<open>p\<close> starts on the
  line of \<open>p\<close> (no newline lies between them), and a URL that starts after \<open>p\<close> starts
  on a later line (a newline lies between them).
\<close>

definition last_on_first_line :: "string \<Rightarrow> nat \<Rightarrow> bool" where
  "last_on_first_line outs p =
     list_all (\<lambda>q. url_here (drop q outs) \<longrightarrow>
                   (if q \<le> p then newline \<notin> set (slice outs q p)
                    else newline \<in> set (slice outs p q)))
              [0 ..< Suc (length outs)]"

text \<open>
  The session of \<open>scenario\<close>, except that the notebook server listens on port 49152:
  every read of the error file gives the URL with that port, every accounting query
  reports the job as running, and the user never interrupts.
\<close>

definition never_ready :: world where
  "never_ready = scenario\<lparr>proc :=
     (\<lambda>n argv. if n < 2 then scenario_proc n argv
                else if even n then (0, ''http://10.0.0.5:49152/?token=abc123'' @ [newline], [])
                else (0, ''4821 jupyterhpc cpu RUNNING 0:0'' @ [newline], [])),
     sigint := (\<lambda>n. False)\<rparr>"

section \<open>Facts about the matcher\<close>

lemma concat_map_concat:
  "concat (map (\<lambda>x. concat (map g (f x))) xs) = concat (map g (concat (map f xs)))"
  by (induction xs) auto

text \<open>Matching \<open>p\<close> followed by \<open>q\<close>: every way to finish \<open>p\<close>, continued by \<open>q\<close>.\<close>

lemma bt_append: "bt (p @ q) subj st = concat (map (bt q subj) (bt p subj st))"
proof (induction p subj st rule: bt.induct)
  case (3 c lo hi p subj i os gs)
  let ?ks = "rev [lo ..< Suc (run_len c hi (drop i subj))]"
  have "map (\<lambda>k. bt (p @ q) subj (i + k, os, gs)) ?ks =
        map (\<lambda>k. concat (map (bt q subj) (bt p subj (i + k, os, gs)))) ?ks"
    by (rule map_cong[OF refl]) (rule 3)
  then show ?case
    by (simp only: append_Cons bt.simps concat_map_concat)
qed (auto split: list.splits)

lemma rev_upt_Suc: "lo \<le> n \<Longrightarrow> rev [lo ..< Suc n] = n # rev [lo ..< n]"
  by simp

subsection \<open>Slices\<close>

lemma slice_append: "i \<le> m \<Longrightarrow> m \<le> j \<Longrightarrow> slice s i m @ slice s m j = slice s i j"
proof -
  assume a: "i \<le> m" "m \<le> j"
  have "take ((m - i) + (j - m)) (drop i s) =
        take (m - i) (drop i s) @ take (j - m) (drop (m - i) (drop i s))"
    by (rule take_add)
  with a show ?thesis by (simp add: slice_def)
qed

lemma take_slice: "k \<le> j - i \<Longrightarrow> take k (slice s i j) = take k (drop i s)"
  by (simp add: slice_def min_def)

lemma drop_slice: "drop k (slice s i j) = slice s (i + k) j"
  by (simp add: slice_def drop_take add.commute)

lemma length_slice: "j \<le> length s \<Longrightarrow> length (slice s i j) = j - i"
  by (simp add: slice_def)

lemma slice_same: "slice s i i = []"
  by (simp add: slice_def)

lemma slice_all: "slice s 0 (length s) = s"
  by (simp add: slice_def)

lemma slice_mid: "slice (a @ u @ b) (length a) (length a + length u) = u"
  by (simp add: slice_def)

subsection \<open>The longest run of a repetition\<close>

lemma run_len_le: "run_len c hi s \<le> length s"
  by (cases hi) (auto simp: run_len_def Let_def length_takeWhile_le min.coboundedI2)

lemma take_takeWhile:
  "k \<le> length (takeWhile P s) \<Longrightarrow> list_all P (take k s)"
proof (induction s arbitrary: k)
  case Nil
  then show ?case by simp
next
  case (Cons x xs)
  then show ?case by (cases k) (auto split: if_splits)
qed

lemma run_len_class: "k \<le> run_len c hi s \<Longrightarrow> list_all (in_class c) (take k s)"
  by (cases hi) (auto simp: run_len_def Let_def intro: take_takeWhile)

lemma run_len_within: "k \<le> run_len c hi s \<Longrightarrow> within hi k"
  by (cases hi) (auto simp: run_len_def Let_def within_def)

lemma takeWhile_all_take:
  "k \<le> length s \<Longrightarrow> list_all P (take k s) \<Longrightarrow> k \<le> length (takeWhile P s)"
proof (induction s arbitrary: k)
  case Nil
  then show ?case by simp
next
  case (Cons x xs)
  then show ?case by (cases k) auto
qed

lemma run_len_ge:
  "k \<le> length s \<Longrightarrow> list_all (in_class c) (take k s) \<Longrightarrow> within hi k \<Longrightarrow> k \<le> run_len c hi s"
  by (cases hi) (auto simp: run_len_def Let_def within_def takeWhile_all_take)

subsection \<open>Patterns without groups and anchors\<close>

lemma bt_Rep_mem:
  "st' \<in> set (bt (Rep c lo hi # p) subj (i, os, gs)) \<longleftrightarrow>
   (\<exists>k. lo \<le> k \<and> k \<le> run_len c hi (drop i subj) \<and> st' \<in> set (bt p subj (i + k, os, gs)))"
  by (auto simp: less_Suc_eq_le)

lemma plain_sound:
  "list_all plain_item p \<Longrightarrow> st' \<in> set (bt p subj (i, os, gs)) \<Longrightarrow> i \<le> length subj \<Longrightarrow>
   \<exists>j. st' = (j, os, gs) \<and> i \<le> j \<and> j \<le> length subj \<and> lang p (slice subj i j)"
proof (induction p arbitrary: i)
  case Nil
  then show ?case by (simp add: slice_same)
next
  case (Cons x p)
  show ?case
  proof (cases x)
    case (Lit l)
    with Cons.prems have eq: "take (length l) (drop i subj) = l"
      and mem: "st' \<in> set (bt p subj (i + length l, os, gs))"
      by (auto split: if_splits)
    have "length (take (length l) (drop i subj)) = length l" using eq by simp
    then have "length l \<le> length subj - i" by simp
    with Cons.prems(3) have le: "i + length l \<le> length subj" by simp
    from Cons.IH[OF _ mem le] Cons.prems(1)
    obtain j where j: "st' = (j, os, gs)" "i + length l \<le> j" "j \<le> length subj"
      "lang p (slice subj (i + length l) j)" by auto
    have "slice subj i (i + length l) = l" using eq by (simp add: slice_def)
    then have "slice subj i j = l @ slice subj (i + length l) j"
      using slice_append[of i "i + length l" j subj] j(2) by simp
    then have "lang (Lit l # p) (slice subj i j)" using j(4) by simp
    with j Lit show ?thesis by auto
  next
    case (Rep c lo hi)
    with Cons.prems obtain k where k: "lo \<le> k" "k \<le> run_len c hi (drop i subj)"
      and mem: "st' \<in> set (bt p subj (i + k, os, gs))"
      unfolding bt_Rep_mem by auto
    have "k \<le> length subj - i" using k(2) run_len_le[of c hi "drop i subj"] by simp
    with Cons.prems(3) have le: "i + k \<le> length subj" by simp
    from Cons.IH[OF _ mem le] Cons.prems(1)
    obtain j where j: "st' = (j, os, gs)" "i + k \<le> j" "j \<le> length subj"
      "lang p (slice subj (i + k) j)" by auto
    have len: "length (slice subj i j) = j - i" using j(3) by (rule length_slice)
    have "list_all (in_class c) (take k (slice subj i j))"
      using run_len_class[OF k(2)] j(2) by (simp add: take_slice)
    moreover have "within hi k" using k(2) by (rule run_len_within)
    moreover have "lang p (drop k (slice subj i j))" using j(4) by (simp add: drop_slice)
    moreover have "k \<in> set [lo ..< Suc (length (slice subj i j))]" using k(1) j(2) len by auto
    ultimately have "lang (Rep c lo hi # p) (slice subj i j)"
      unfolding lang.simps list_ex_iff by blast
    with j Rep show ?thesis by auto
  qed (use Cons.prems in auto)
qed

lemma plain_complete:
  "list_all plain_item p \<Longrightarrow> lang p u \<Longrightarrow> slice subj i (i + length u) = u \<Longrightarrow>
   i + length u \<le> length subj \<Longrightarrow> (i + length u, os, gs) \<in> set (bt p subj (i, os, gs))"
proof (induction p arbitrary: i u)
  case Nil
  then show ?case by simp
next
  case (Cons x p)
  show ?case
  proof (cases x)
    case (Lit l)
    with Cons.prems obtain v where u: "u = l @ v" and v: "lang p v"
      by (auto simp: prefix_def)
    have "take (length l) (drop i subj) = l"
      using Cons.prems(3) u by (metis append_eq_conv_conj add_diff_cancel_left' slice_def take_take min.absorb1 le_add1 length_append)
    moreover have "slice subj (i + length l) (i + length l + length v) = v"
      using Cons.prems(3) u by (metis drop_slice append_eq_conv_conj add.assoc length_append)
    then have "(i + length l + length v, os, gs) \<in> set (bt p subj (i + length l, os, gs))"
      using Cons.IH[of v "i + length l"] Cons.prems(1,4) v u by simp
    ultimately show ?thesis using Lit u by (simp add: add.assoc)
  next
    case (Rep c lo hi)
    with Cons.prems obtain k where k: "lo \<le> k" "k \<le> length u" "within hi k"
      "list_all (in_class c) (take k u)" "lang p (drop k u)"
      by (auto simp: list_ex_iff)
    have tk: "take k (drop i subj) = take k u"
      using Cons.prems(3) k(2) by (metis take_slice add_diff_cancel_left')
    have "k \<le> length (drop i subj)" using k(2) Cons.prems(4) by simp
    then have kr: "k \<le> run_len c hi (drop i subj)"
      using k(3,4) tk by (intro run_len_ge) simp_all
    have "slice subj (i + k) (i + k + length (drop k u)) = drop k u"
      using Cons.prems(3) k(2) by (metis drop_slice add.assoc le_add_diff_inverse length_drop)
    then have "(i + k + length (drop k u), os, gs) \<in> set (bt p subj (i + k, os, gs))"
      using Cons.IH[of "drop k u" "i + k"] Cons.prems(1,4) k(2,5) by simp
    then have "(i + length u, os, gs) \<in> set (bt p subj (i + k, os, gs))"
      using k(2) by (simp add: add.assoc)
    then show ?thesis using k(1) kr unfolding Rep bt_Rep_mem by blast
  qed (use Cons.prems in auto)
qed

lemma plain_iff:
  assumes "list_all plain_item p" "i \<le> length subj"
  shows "st' \<in> set (bt p subj (i, os, gs)) \<longleftrightarrow>
         (\<exists>j. st' = (j, os, gs) \<and> i \<le> j \<and> j \<le> length subj \<and> lang p (slice subj i j))"
proof
  assume "st' \<in> set (bt p subj (i, os, gs))"
  then show "\<exists>j. st' = (j, os, gs) \<and> i \<le> j \<and> j \<le> length subj \<and> lang p (slice subj i j)"
    using plain_sound assms by blast
next
  assume "\<exists>j. st' = (j, os, gs) \<and> i \<le> j \<and> j \<le> length subj \<and> lang p (slice subj i j)"
  then obtain j where j: "st' = (j, os, gs)" "i \<le> j" "j \<le> length subj" "lang p (slice subj i j)"
    by blast
  let ?u = "slice subj i j"
  have len: "length ?u = j - i" using j(3) by (rule length_slice)
  then have "i + length ?u = j" using j(2) by simp
  then have "(j, os, gs) \<in> set (bt p subj (i, os, gs))"
    using plain_complete[OF assms(1) j(4), of subj i os gs] j(3) by simp
  then show "st' \<in> set (bt p subj (i, os, gs))" using j(1) by simp
qed

lemma bt_append_mem:
  "st' \<in> set (bt (p @ q) subj st) \<longleftrightarrow> (\<exists>st1. st1 \<in> set (bt p subj st) \<and> st' \<in> set (bt q subj st1))"
  by (auto simp: bt_append)

lemma bt_group:
  assumes "list_all plain_item p" "i \<le> length subj"
  shows "st' \<in> set (bt (Open # p @ [Close]) subj (i, os, gs)) \<longleftrightarrow>
         (\<exists>j. st' = (j, os, gs @ [(i, j)]) \<and> i \<le> j \<and> j \<le> length subj \<and> lang p (slice subj i j))"
proof -
  have "st' \<in> set (bt (Open # p @ [Close]) subj (i, os, gs)) \<longleftrightarrow>
        (\<exists>st1. st1 \<in> set (bt p subj (i, i # os, gs)) \<and> st' \<in> set (bt [Close] subj st1))"
    by (simp add: bt_append_mem)
  also have "\<dots> \<longleftrightarrow> (\<exists>j. st' = (j, os, gs @ [(i, j)]) \<and> i \<le> j \<and> j \<le> length subj \<and> lang p (slice subj i j))"
    unfolding plain_iff[OF assms] by auto
  finally show ?thesis .
qed

lemma lang_Rep:
  "lang (Rep c lo hi # p) u \<longleftrightarrow>
   (\<exists>k. lo \<le> k \<and> k \<le> length u \<and> within hi k \<and> list_all (in_class c) (take k u) \<and> lang p (drop k u))"
  by (auto simp: list_ex_iff less_Suc_eq_le)

lemma lang_Lit: "lang (Lit l # p) u \<longleftrightarrow> (\<exists>r. u = l @ r \<and> lang p r)"
  by (auto simp: prefix_def)

lemma lang_append:
  "lang (p @ q) u \<longleftrightarrow> (\<exists>v w. u = v @ w \<and> lang p v \<and> lang q w)"
proof (induction p arbitrary: u)
  case Nil
  then show ?case by simp
next
  case (Cons x p)
  show ?case
  proof (cases x)
    case (Lit l)
    show ?thesis
    proof
      assume "lang ((x # p) @ q) u"
      then obtain r where u: "u = l @ r" and "lang (p @ q) r"
        using Lit by (auto simp: prefix_def)
      then obtain v w where "r = v @ w" "lang p v" "lang q w" using Cons.IH by blast
      then have "u = (l @ v) @ w \<and> lang (x # p) (l @ v) \<and> lang q w" using u Lit by simp
      then show "\<exists>v w. u = v @ w \<and> lang (x # p) v \<and> lang q w" by blast
    next
      assume "\<exists>v w. u = v @ w \<and> lang (x # p) v \<and> lang q w"
      then obtain v w where vw: "u = v @ w" "lang (x # p) v" "lang q w" by blast
      then obtain r where r: "v = l @ r" "lang p r" using Lit by (auto simp: prefix_def)
      then have "lang (p @ q) (r @ w)" using vw(3) Cons.IH by blast
      then show "lang ((x # p) @ q) u" using Lit vw(1) r(1) by simp
    qed
  next
    case (Rep c lo hi)
    show ?thesis
    proof
      assume "lang ((x # p) @ q) u"
      then obtain k where k: "lo \<le> k" "k \<le> length u" "within hi k"
        "list_all (in_class c) (take k u)" "lang (p @ q) (drop k u)"
        unfolding Rep append_Cons lang_Rep by blast
      then obtain v w where vw: "drop k u = v @ w" "lang p v" "lang q w" using Cons.IH by blast
      let ?v = "take k u @ v"
      have u: "u = ?v @ w" using vw(1) by (metis append.assoc append_take_drop_id)
      have e: "take k ?v = take k u" "drop k ?v = v" and l: "k \<le> length ?v"
        using k(2) by simp_all
      have "lo \<le> k \<and> k \<le> length ?v \<and> within hi k \<and>
                 list_all (in_class c) (take k ?v) \<and> lang p (drop k ?v)"
        unfolding e using k(1,3,4) vw(2) l by blast
      then have "lang (x # p) ?v" unfolding Rep lang_Rep by (rule exI)
      with u vw(3) show "\<exists>v w. u = v @ w \<and> lang (x # p) v \<and> lang q w" by blast
    next
      assume "\<exists>v w. u = v @ w \<and> lang (x # p) v \<and> lang q w"
      then obtain v w where vw: "u = v @ w" "lang (x # p) v" "lang q w" by blast
      then obtain k where k: "lo \<le> k" "k \<le> length v" "within hi k"
        "list_all (in_class c) (take k v)" "lang p (drop k v)"
        unfolding Rep lang_Rep by blast
      have "lang (p @ q) (drop k v @ w)" using k(5) vw(3) Cons.IH by blast
      moreover have e: "take k u = take k v" "drop k u = drop k v @ w" and l: "k \<le> length u"
        using vw(1) k(2) by simp_all
      ultimately have "lo \<le> k \<and> k \<le> length u \<and> within hi k \<and>
                 list_all (in_class c) (take k u) \<and> lang (p @ q) (drop k u)"
        unfolding e using k(1,3,4) l by blast
      then show "lang ((x # p) @ q) u" unfolding Rep append_Cons lang_Rep by (rule exI)
    qed
  qed (use Cons.IH in auto)
qed

lemma lang_rep:
  "lang [Rep c lo hi] u \<longleftrightarrow> lo \<le> length u \<and> within hi (length u) \<and> list_all (in_class c) u"
  unfolding lang_Rep by auto

lemma lang_lit: "lang [Lit l] u \<longleftrightarrow> u = l"
  by (auto simp: prefix_def)

subsection \<open>The patterns of the URL\<close>

lemma search_pattern_split:
  "url_search_pattern = [Rep Dot 0 None] @ (Open # url_core @ [Close]) @ [Rep Dot 0 None]"
  by (simp add: url_search_pattern_def url_core_def ip_core_def)

lemma match_pattern_split:
  "url_match_pattern =
     [Bol, Lit ''http://''] @ (Open # ip_core @ [Close]) @ [Lit '':''] @
     (Open # [Rep Digit 2 (Some 4)] @ [Close]) @ [Lit ''/?token=''] @
     (Open # [Rep Word 1 None] @ [Close]) @ [Eol]"
  by (simp add: url_match_pattern_def ip_core_def)

lemma plain_ip_core: "list_all plain_item ip_core"
  by (simp add: ip_core_def)

lemma plain_url_core: "list_all plain_item url_core"
  by (simp add: url_core_def ip_core_def)

lemma lang_quad: "lang [Rep Digit 1 (Some 3)] u \<longleftrightarrow> quad u"
  by (simp only: lang_rep quad_def within_def option.case in_class.simps[abs_def]) 

lemma lang_port: "lang [Rep Digit 2 (Some 4)] u \<longleftrightarrow> port_ok u"
  by (simp only: lang_rep port_ok_def within_def option.case in_class.simps[abs_def]) 

lemma lang_token: "lang [Rep Word 1 None] u \<longleftrightarrow> token_ok u"
  by (simp only: lang_rep token_ok_def within_def option.case in_class.simps[abs_def] simp_thms)

lemma lang_ip_core:
  "lang ip_core ip \<longleftrightarrow>
   (\<exists>a b c d. ip = a @ ''.'' @ b @ ''.'' @ c @ ''.'' @ d \<and> quad a \<and> quad b \<and> quad c \<and> quad d)"
proof -
  have split: "ip_core = [Rep Digit 1 (Some 3)] @ [Lit ''.''] @ [Rep Digit 1 (Some 3)] @ [Lit ''.''] @
                  [Rep Digit 1 (Some 3)] @ [Lit ''.''] @ [Rep Digit 1 (Some 3)]"
    by (simp add: ip_core_def)
  show ?thesis
    unfolding split lang_append lang_quad lang_lit
  proof (intro iffI; elim exE conjE)
    fix a b c d
    assume A: "ip = a @ ''.'' @ b @ ''.'' @ c @ ''.'' @ d" "quad a" "quad b" "quad c" "quad d"
    show "\<exists>v w. ip = v @ w \<and> quad v \<and> (\<exists>v wa. w = v @ wa \<and> v = ''.'' \<and>
       (\<exists>v w. wa = v @ w \<and> quad v \<and> (\<exists>v wa. w = v @ wa \<and> v = ''.'' \<and>
       (\<exists>v w. wa = v @ w \<and> quad v \<and> (\<exists>v wa. w = v @ wa \<and> v = ''.'' \<and> quad wa)))))"
      unfolding A(1) by (intro exI conjI; (rule refl | rule A))
  qed auto
qed

lemma lang_url_core:
  "lang url_core u \<longleftrightarrow>
   (\<exists>ip port token. u = ''http://'' @ ip @ '':'' @ port @ ''/?token='' @ token \<and>
       lang ip_core ip \<and> port_ok port \<and> token_ok token)"
proof -
  have split: "url_core = [Lit ''http://''] @ ip_core @ [Lit '':''] @ [Rep Digit 2 (Some 4)] @
                 [Lit ''/?token=''] @ [Rep Word 1 None]"
    by (simp add: url_core_def)
  show ?thesis
    unfolding split lang_append lang_port lang_token lang_lit
  proof (intro iffI; elim exE conjE)
    fix ip port token
    assume A: "u = ''http://'' @ ip @ '':'' @ port @ ''/?token='' @ token"
      "lang ip_core ip" "port_ok port" "token_ok token"
    show "\<exists>v w. u = v @ w \<and> v = ''http://'' \<and> (\<exists>v wa. w = v @ wa \<and> lang ip_core v \<and>
       (\<exists>v w. wa = v @ w \<and> v = '':'' \<and> (\<exists>v wa. w = v @ wa \<and> port_ok v \<and>
       (\<exists>v w. wa = v @ w \<and> v = ''/?token='' \<and> token_ok w))))"
      unfolding A(1) by (intro exI conjI; (rule refl | rule A))
  qed auto
qed

lemma contains_iff: "contains sub s \<longleftrightarrow> (\<exists>a b. s = a @ sub @ b)"
proof (induction s)
  case Nil
  then show ?case by auto
next
  case (Cons c cs)
  show ?case
  proof
    assume "contains sub (c # cs)"
    then consider "prefix sub (c # cs)" | "contains sub cs" by auto
    then show "\<exists>a b. c # cs = a @ sub @ b"
    proof cases
      case 1
      then obtain b where "c # cs = [] @ sub @ b" by (auto simp: prefix_def)
      then show ?thesis by blast
    next
      case 2
      then obtain a b where "cs = a @ sub @ b" using Cons.IH by blast
      then have "c # cs = (c # a) @ sub @ b" by simp
      then show ?thesis by blast
    qed
  next
    assume "\<exists>a b. c # cs = a @ sub @ b"
    then obtain a b where ab: "c # cs = a @ sub @ b" by blast
    show "contains sub (c # cs)"
    proof (cases a)
      case Nil
      then have "prefix sub (c # cs)" using ab by (simp add: prefix_def)
      then show ?thesis by simp
    next
      case (Cons x a')
      then have "cs = a' @ sub @ b" using ab by simp
      then have "contains sub cs" using Cons.IH by blast
      then show ?thesis by simp
    qed
  qed
qed

lemma search_from_None:
  "search_from p subj is = None \<longleftrightarrow> (\<forall>i \<in> set is. bt p subj (i, [], []) = [])"
  by (induction "is") (auto split: list.splits)

lemma search_from_Some:
  "search_from p subj is = Some gs \<Longrightarrow>
   \<exists>i st. i \<in> set is \<and> st \<in> set (bt p subj (i, [], [])) \<and> gs = group_texts subj st"
proof (induction "is")
  case Nil
  then show ?case by simp
next
  case (Cons i "is")
  show ?case
  proof (cases "bt p subj (i, [], [])")
    case Nil
    then have "search_from p subj is = Some gs" using Cons.prems by simp
    then obtain i' st where "i' \<in> set is" "st \<in> set (bt p subj (i', [], []))" "gs = group_texts subj st"
      using Cons.IH by blast
    then have "i' \<in> set (i # is) \<and> st \<in> set (bt p subj (i', [], [])) \<and> gs = group_texts subj st"
      by simp
    then show ?thesis by blast
  next
    case (Cons st rest)
    then have "gs = group_texts subj st" using Cons.prems by simp
    moreover have "st \<in> set (bt p subj (i, [], []))" using Cons by simp
    ultimately have "i \<in> set (i # is) \<and> st \<in> set (bt p subj (i, [], [])) \<and> gs = group_texts subj st"
      by simp
    then show ?thesis by blast
  qed
qed

lemma search_mem:
  assumes "i \<le> length subj"
  shows "st \<in> set (bt url_search_pattern subj (i, [], [])) \<longleftrightarrow>
     (\<exists>b e j. st = (j, [], [(b, e)]) \<and> i \<le> b \<and> b \<le> e \<and> e \<le> j \<and> j \<le> length subj \<and>
        lang [Rep Dot 0 None] (slice subj i b) \<and> lang url_core (slice subj b e) \<and>
        lang [Rep Dot 0 None] (slice subj e j))"
proof
  have p1: "list_all plain_item [Rep Dot 0 None]" by simp
  assume "st \<in> set (bt url_search_pattern subj (i, [], []))"
  then obtain st1 st2 where
    s1: "st1 \<in> set (bt [Rep Dot 0 None] subj (i, [], []))" and
    s2: "st2 \<in> set (bt (Open # url_core @ [Close]) subj st1)" and
    s3: "st \<in> set (bt [Rep Dot 0 None] subj st2)"
    unfolding search_pattern_split bt_append_mem by blast
  from s1 obtain b where b: "st1 = (b, [], [])" "i \<le> b" "b \<le> length subj"
    "lang [Rep Dot 0 None] (slice subj i b)"
    unfolding plain_iff[OF p1 assms] by blast
  from s2 obtain e where e: "st2 = (e, [], [(b, e)])" "b \<le> e" "e \<le> length subj"
    "lang url_core (slice subj b e)"
    unfolding b(1) bt_group[OF plain_url_core b(3)] by auto
  from s3 obtain j where j: "st = (j, [], [(b, e)])" "e \<le> j" "j \<le> length subj"
    "lang [Rep Dot 0 None] (slice subj e j)"
    unfolding e(1) plain_iff[OF p1 e(3)] by blast
  from b e j show "\<exists>b e j. st = (j, [], [(b, e)]) \<and> i \<le> b \<and> b \<le> e \<and> e \<le> j \<and> j \<le> length subj \<and>
        lang [Rep Dot 0 None] (slice subj i b) \<and> lang url_core (slice subj b e) \<and>
        lang [Rep Dot 0 None] (slice subj e j)"
    by blast
next
  have p1: "list_all plain_item [Rep Dot 0 None]" by simp
  assume "\<exists>b e j. st = (j, [], [(b, e)]) \<and> i \<le> b \<and> b \<le> e \<and> e \<le> j \<and> j \<le> length subj \<and>
        lang [Rep Dot 0 None] (slice subj i b) \<and> lang url_core (slice subj b e) \<and>
        lang [Rep Dot 0 None] (slice subj e j)"
  then obtain b e j where h: "st = (j, [], [(b, e)])" "i \<le> b" "b \<le> e" "e \<le> j" "j \<le> length subj"
        "lang [Rep Dot 0 None] (slice subj i b)" "lang url_core (slice subj b e)"
        "lang [Rep Dot 0 None] (slice subj e j)"
    by blast
  have bl: "b \<le> length subj" and el: "e \<le> length subj" using h by simp_all
  have s1: "(b, [], []) \<in> set (bt [Rep Dot 0 None] subj (i, [], []))"
    unfolding plain_iff[OF p1 assms] using h bl by blast
  have s2: "(e, [], [(b, e)]) \<in> set (bt (Open # url_core @ [Close]) subj (b, [], []))"
    unfolding bt_group[OF plain_url_core bl] using h el by simp
  have s3: "st \<in> set (bt [Rep Dot 0 None] subj (e, [], [(b, e)]))"
    unfolding plain_iff[OF p1 el] using h by blast
  show "st \<in> set (bt url_search_pattern subj (i, [], []))"
    unfolding search_pattern_split bt_append_mem using s1 s2 s3 by blast
qed

lemma lit_iff:
  assumes "i \<le> length subj"
  shows "st' \<in> set (bt [Lit l] subj (i, os, gs)) \<longleftrightarrow>
         (\<exists>j. st' = (j, os, gs) \<and> i \<le> j \<and> j \<le> length subj \<and> slice subj i j = l)"
proof -
  have p: "list_all plain_item [Lit l]" by simp
  show ?thesis unfolding plain_iff[OF p assms] lang_lit ..
qed

lemma lit_end: "j \<le> length subj \<Longrightarrow> slice subj i j = l \<Longrightarrow> i \<le> j \<Longrightarrow> j = i + length l"
  using length_slice[of j subj i] by auto

lemma match_mem:
  "st \<in> set (bt url_match_pattern subj (0, [], [])) \<longleftrightarrow>
     (\<exists>j1 j2 j3 j4 j5 j6. st = (j6, [], [(j1, j2), (j3, j4), (j5, j6)]) \<and>
        j1 \<le> j2 \<and> j2 \<le> j3 \<and> j3 \<le> j4 \<and> j4 \<le> j5 \<and> j5 \<le> j6 \<and> j6 \<le> length subj \<and>
        slice subj 0 j1 = ''http://'' \<and> lang ip_core (slice subj j1 j2) \<and>
        slice subj j2 j3 = '':'' \<and> port_ok (slice subj j3 j4) \<and>
        slice subj j4 j5 = ''/?token='' \<and> token_ok (slice subj j5 j6) \<and>
        (j6 = length subj \<or> (Suc j6 = length subj \<and> subj ! j6 = newline)))"
  (is "?L \<longleftrightarrow> ?R")
proof
  have z: "0 \<le> length subj" by simp
  have pp: "list_all plain_item [Rep Digit 2 (Some 4)]" by simp
  have pt: "list_all plain_item [Rep Word 1 None]" by simp
  assume ?L
  then obtain s1 s2 s3 s4 s5 s6 where
    s1: "s1 \<in> set (bt [Bol, Lit ''http://''] subj (0, [], []))" and
    s2: "s2 \<in> set (bt (Open # ip_core @ [Close]) subj s1)" and
    s3: "s3 \<in> set (bt [Lit '':''] subj s2)" and
    s4: "s4 \<in> set (bt (Open # [Rep Digit 2 (Some 4)] @ [Close]) subj s3)" and
    s5: "s5 \<in> set (bt [Lit ''/?token=''] subj s4)" and
    s6: "s6 \<in> set (bt (Open # [Rep Word 1 None] @ [Close]) subj s5)" and
    s7: "st \<in> set (bt [Eol] subj s6)"
    unfolding match_pattern_split bt_append_mem by blast
  from s1 have "s1 \<in> set (bt [Lit ''http://''] subj (0, [], []))" by simp
  then obtain j1 where j1: "s1 = (j1, [], [])" "j1 \<le> length subj" "slice subj 0 j1 = ''http://''"
    unfolding lit_iff[OF z] by blast
  from s2 obtain j2 where j2: "s2 = (j2, [], [(j1, j2)])" "j1 \<le> j2" "j2 \<le> length subj"
    "lang ip_core (slice subj j1 j2)"
    unfolding j1(1) bt_group[OF plain_ip_core j1(2)] by auto
  from s3 obtain j3 where j3: "s3 = (j3, [], [(j1, j2)])" "j2 \<le> j3" "j3 \<le> length subj"
    "slice subj j2 j3 = '':''"
    unfolding j2(1) lit_iff[OF j2(3)] by blast
  from s4 obtain j4 where j4: "s4 = (j4, [], [(j1, j2), (j3, j4)])" "j3 \<le> j4" "j4 \<le> length subj"
    "port_ok (slice subj j3 j4)"
    unfolding j3(1) bt_group[OF pp j3(3)] lang_port by auto
  from s5 obtain j5 where j5: "s5 = (j5, [], [(j1, j2), (j3, j4)])" "j4 \<le> j5" "j5 \<le> length subj"
    "slice subj j4 j5 = ''/?token=''"
    unfolding j4(1) lit_iff[OF j4(3)] by blast
  from s6 obtain j6 where j6: "s6 = (j6, [], [(j1, j2), (j3, j4), (j5, j6)])" "j5 \<le> j6"
    "j6 \<le> length subj" "token_ok (slice subj j5 j6)"
    unfolding j5(1) bt_group[OF pt j5(3)] lang_token by auto
  from s7 have e: "st = s6" "j6 = length subj \<or> (Suc j6 = length subj \<and> subj ! j6 = newline)"
    unfolding j6(1) by (auto split: if_splits)
  show ?R using j1 j2 j3 j4 j5 j6 e by blast
next
  have z: "0 \<le> length subj" by simp
  have pp: "list_all plain_item [Rep Digit 2 (Some 4)]" by simp
  have pt: "list_all plain_item [Rep Word 1 None]" by simp
  assume ?R
  then obtain j1 j2 j3 j4 j5 j6 where h: "st = (j6, [], [(j1, j2), (j3, j4), (j5, j6)])"
        "j1 \<le> j2" "j2 \<le> j3" "j3 \<le> j4" "j4 \<le> j5" "j5 \<le> j6" "j6 \<le> length subj"
        "slice subj 0 j1 = ''http://''" "lang ip_core (slice subj j1 j2)"
        "slice subj j2 j3 = '':''" "port_ok (slice subj j3 j4)"
        "slice subj j4 j5 = ''/?token=''" "token_ok (slice subj j5 j6)"
        "j6 = length subj \<or> (Suc j6 = length subj \<and> subj ! j6 = newline)"
    by blast
  have l: "j1 \<le> length subj" "j2 \<le> length subj" "j3 \<le> length subj" "j4 \<le> length subj"
    "j5 \<le> length subj" using h by simp_all
  have "(j1, [], []) \<in> set (bt [Lit ''http://''] subj (0, [], []))"
    unfolding lit_iff[OF z] using h l by blast
  then have s1: "(j1, [], []) \<in> set (bt [Bol, Lit ''http://''] subj (0, [], []))" by simp
  have s2: "(j2, [], [(j1, j2)]) \<in> set (bt (Open # ip_core @ [Close]) subj (j1, [], []))"
    unfolding bt_group[OF plain_ip_core l(1)] using h l by simp
  have s3: "(j3, [], [(j1, j2)]) \<in> set (bt [Lit '':''] subj (j2, [], [(j1, j2)]))"
    unfolding lit_iff[OF l(2)] using h l by blast
  have s4: "(j4, [], [(j1, j2), (j3, j4)]) \<in>
              set (bt (Open # [Rep Digit 2 (Some 4)] @ [Close]) subj (j3, [], [(j1, j2)]))"
    unfolding bt_group[OF pp l(3)] lang_port using h l by simp
  have s5: "(j5, [], [(j1, j2), (j3, j4)]) \<in> set (bt [Lit ''/?token=''] subj (j4, [], [(j1, j2), (j3, j4)]))"
    unfolding lit_iff[OF l(4)] using h l by blast
  have s6: "(j6, [], [(j1, j2), (j3, j4), (j5, j6)]) \<in>
              set (bt (Open # [Rep Word 1 None] @ [Close]) subj (j5, [], [(j1, j2), (j3, j4)]))"
    unfolding bt_group[OF pt l(5)] lang_token using h l by simp
  have s7: "st \<in> set (bt [Eol] subj (j6, [], [(j1, j2), (j3, j4), (j5, j6)]))"
    using h(1,14) by auto
  show ?L
    unfolding match_pattern_split bt_append_mem using s1 s2 s3 s4 s5 s6 s7 by blast
qed

lemma slice_in: "u = a @ x @ b \<Longrightarrow> i = length a \<Longrightarrow> j = length a + length x \<Longrightarrow> slice u i j = x"
  by (simp add: slice_def)

lemma slice_last: "Suc j = length u \<Longrightarrow> slice u j (length u) = [u ! j]"
proof -
  assume a: "Suc j = length u"
  then have "drop j u = u ! j # drop (Suc j) u" by (intro Cons_nth_drop_Suc[symmetric]) simp
  then show ?thesis using a by (simp add: slice_def)
qed

lemma slices6:
  assumes "j1 \<le> j2" "j2 \<le> j3" "j3 \<le> j4" "j4 \<le> j5" "j5 \<le> j6" "j6 \<le> length u"
  shows "u = slice u 0 j1 @ slice u j1 j2 @ slice u j2 j3 @ slice u j3 j4 @ slice u j4 j5 @
             slice u j5 j6 @ slice u j6 (length u)"
proof -
  have "slice u j5 j6 @ slice u j6 (length u) = slice u j5 (length u)"
    using assms by (intro slice_append) simp_all
  moreover have "slice u j4 j5 @ slice u j5 (length u) = slice u j4 (length u)"
    using assms by (intro slice_append) simp_all
  moreover have "slice u j3 j4 @ slice u j4 (length u) = slice u j3 (length u)"
    using assms by (intro slice_append) simp_all
  moreover have "slice u j2 j3 @ slice u j3 (length u) = slice u j2 (length u)"
    using assms by (intro slice_append) simp_all
  moreover have "slice u j1 j2 @ slice u j2 (length u) = slice u j1 (length u)"
    using assms by (intro slice_append) simp_all
  moreover have "slice u 0 j1 @ slice u j1 (length u) = slice u 0 (length u)"
    using assms by (intro slice_append) simp_all
  ultimately show ?thesis by (simp add: slice_all)
qed

lemma match_group_3:
  "match_group [a, b, c] (Suc 0) = Inr a" "match_group [a, b, c] 2 = Inr b"
  "match_group [a, b, c] 3 = Inr c"
  by (simp_all add: match_group_def)

lemma match_group_1: "match_group [a] (Suc 0) = Inr a"
  by (simp add: match_group_def)

lemma parse_url_None: "bt url_match_pattern u (0, [], []) = [] \<Longrightarrow> parse_url u = Inr None"
  by (simp add: parse_url_def re_match_def)

lemma parse_url_hd:
  assumes "bt url_match_pattern u (0, [], []) = st # rest"
  shows "\<exists>ip port token tail. parse_url u = Inr (Some (ip, port, token)) \<and>
           u = ''http://'' @ ip @ '':'' @ port @ ''/?token='' @ token @ tail \<and>
           (tail = [] \<or> tail = [newline]) \<and> lang ip_core ip \<and> port_ok port \<and> token_ok token"
proof -
  have "st \<in> set (bt url_match_pattern u (0, [], []))" using assms by simp
  then obtain j1 j2 j3 j4 j5 j6 where h: "st = (j6, [], [(j1, j2), (j3, j4), (j5, j6)])"
        "j1 \<le> j2" "j2 \<le> j3" "j3 \<le> j4" "j4 \<le> j5" "j5 \<le> j6" "j6 \<le> length u"
        "slice u 0 j1 = ''http://''" "lang ip_core (slice u j1 j2)"
        "slice u j2 j3 = '':''" "port_ok (slice u j3 j4)"
        "slice u j4 j5 = ''/?token=''" "token_ok (slice u j5 j6)"
        "j6 = length u \<or> (Suc j6 = length u \<and> u ! j6 = newline)"
    unfolding match_mem by blast
  let ?ip = "slice u j1 j2" and ?port = "slice u j3 j4" and ?token = "slice u j5 j6"
  let ?tail = "slice u j6 (length u)"
  have "group_texts u st = [?ip, ?port, ?token]" using h(1) by (simp add: group_texts_def)
  then have p: "parse_url u = Inr (Some (?ip, ?port, ?token))"
    using assms by (simp add: parse_url_def re_match_def match_group_3)
  have "u = slice u 0 j1 @ ?ip @ slice u j2 j3 @ ?port @ slice u j4 j5 @ ?token @ ?tail"
    using h(2-7) by (rule slices6)
  then have u: "u = ''http://'' @ ?ip @ '':'' @ ?port @ ''/?token='' @ ?token @ ?tail"
    unfolding h(8,10,12) .
  have t: "?tail = [] \<or> ?tail = [newline]"
    using h(14) slice_same[of u "length u"] slice_last[of j6 u] by auto
  show ?thesis using p u t h(9,11,13) by blast
qed


lemma parse_url_sound:
  assumes "parse_url u = Inr (Some (ip, port, token))"
  shows "\<exists>tail. u = ''http://'' @ ip @ '':'' @ port @ ''/?token='' @ token @ tail \<and>
           (tail = [] \<or> tail = [newline]) \<and> lang ip_core ip \<and> port_ok port \<and> token_ok token"
proof (cases "bt url_match_pattern u (0, [], [])")
  case Nil
  then show ?thesis using parse_url_None assms by simp
next
  case (Cons st rest)
  from parse_url_hd[OF this] assms show ?thesis by auto
qed

lemma not_word_newline: "\<not> is_word newline"
  by (simp add: is_word_def newline_def)

lemma token_ok_last: "token_ok t \<Longrightarrow> t \<noteq> [] \<and> is_word (last t)"
  by (cases t rule: rev_cases) (auto simp: token_ok_def)

lemma parse_url_complete:
  assumes "lang url_core u"
  shows "\<exists>ip port token. parse_url u = Inr (Some (ip, port, token)) \<and>
           u = ''http://'' @ ip @ '':'' @ port @ ''/?token='' @ token \<and>
           lang ip_core ip \<and> port_ok port \<and> token_ok token"
proof -
  from assms obtain ip0 port0 token0 where
    u: "u = ''http://'' @ ip0 @ '':'' @ port0 @ ''/?token='' @ token0" and
    g: "lang ip_core ip0" "port_ok port0" "token_ok token0"
    unfolding lang_url_core by blast
  define j2 where "j2 = 7 + length ip0"
  define j4 where "j4 = Suc j2 + length port0"
  define j6 where "j6 = j4 + 8 + length token0"
  have len: "length u = j6" by (simp add: u j2_def j4_def j6_def)
  have s1: "slice u 0 7 = ''http://''"
    by (rule slice_in[of _ "[]" _ "ip0 @ '':'' @ port0 @ ''/?token='' @ token0"]) (simp_all add: u)
  have s2: "slice u 7 j2 = ip0"
    by (rule slice_in[of _ "''http://''" _ "'':'' @ port0 @ ''/?token='' @ token0"])
       (simp_all add: u j2_def)
  have s3: "slice u j2 (Suc j2) = '':''"
    by (rule slice_in[of _ "''http://'' @ ip0" _ "port0 @ ''/?token='' @ token0"])
       (simp_all add: u j2_def)
  have s4: "slice u (Suc j2) j4 = port0"
    by (rule slice_in[of _ "''http://'' @ ip0 @ '':''" _ "''/?token='' @ token0"])
       (simp_all add: u j2_def j4_def)
  have s5: "slice u j4 (j4 + 8) = ''/?token=''"
    by (rule slice_in[of _ "''http://'' @ ip0 @ '':'' @ port0" _ "token0"])
       (simp_all add: u j2_def j4_def)
  have s6: "slice u (j4 + 8) j6 = token0"
    by (rule slice_in[of _ "''http://'' @ ip0 @ '':'' @ port0 @ ''/?token=''" _ "[]"])
       (simp_all add: u j2_def j4_def j6_def)
  have "(j6, [], [(7, j2), (Suc j2, j4), (j4 + 8, j6)]) \<in> set (bt url_match_pattern u (0, [], []))"
    unfolding match_mem
    apply (rule exI[of _ 7], rule exI[of _ j2], rule exI[of _ "Suc j2"], rule exI[of _ j4],
           rule exI[of _ "j4 + 8"], rule exI[of _ j6])
    using s1 s2 s3 s4 s5 s6 g len by (simp add: j2_def j4_def j6_def)
  then obtain st rest where "bt url_match_pattern u (0, [], []) = st # rest"
    by (cases "bt url_match_pattern u (0, [], [])") auto
  from parse_url_hd[OF this] obtain ip port token tail where
    r: "parse_url u = Inr (Some (ip, port, token))"
       "u = ''http://'' @ ip @ '':'' @ port @ ''/?token='' @ token @ tail"
       "tail = [] \<or> tail = [newline]" "lang ip_core ip" "port_ok port" "token_ok token"
    by blast
  have "tail = []"
  proof (rule ccontr)
    assume "tail \<noteq> []"
    then have "tail = [newline]" using r(3) by simp
    then have "last u = newline" using r(2) by simp
    moreover have "last u = last token0" using u token_ok_last[OF g(3)] by simp
    ultimately show False using token_ok_last[OF g(3)] not_word_newline by simp
  qed
  then show ?thesis using r by auto
qed

lemma slices3:
  assumes "b \<le> e" "e \<le> length s"
  shows "s = take b s @ slice s b e @ drop e s"
proof -
  have "slice s b e @ slice s e (length s) = slice s b (length s)"
    using assms by (intro slice_append) simp_all
  then have "take b s @ slice s b e @ drop e s = take b s @ drop b s"
    by (simp add: slice_def)
  then show ?thesis by simp
qed

lemma url_core_nonempty: "lang url_core u \<Longrightarrow> u \<noteq> []"
  unfolding lang_url_core by auto

lemma url_core_token: "lang url_core u \<Longrightarrow> contains ''token'' (a @ u @ b)"
proof -
  assume "lang url_core u"
  then obtain ip port token where "u = ''http://'' @ ip @ '':'' @ port @ ''/?token='' @ token"
    unfolding lang_url_core by blast
  then have "a @ u @ b = (a @ ''http://'' @ ip @ '':'' @ port @ ''/?'') @ ''token'' @ (''='' @ token @ b)"
    by simp
  then show ?thesis unfolding contains_iff by blast
qed

lemma re_search_url:
  assumes "re_search url_search_pattern outs = Some gs"
  shows "\<exists>b e. b \<le> e \<and> e \<le> length outs \<and> gs = [slice outs b e] \<and> lang url_core (slice outs b e)"
proof -
  from assms obtain i st where i: "i \<in> set [0 ..< Suc (length outs)]"
    and st: "st \<in> set (bt url_search_pattern outs (i, [], []))" and gs: "gs = group_texts outs st"
    unfolding re_search_def using search_from_Some by blast
  from i have "i \<le> length outs" by auto
  from st obtain b e j where h: "st = (j, [], [(b, e)])" "b \<le> e" "e \<le> j" "j \<le> length outs"
    "lang url_core (slice outs b e)"
    unfolding search_mem[OF \<open>i \<le> length outs\<close>] by blast
  have "gs = [slice outs b e]" using gs h(1) by (simp add: group_texts_def)
  moreover have "e \<le> length outs" using h(3,4) by simp
  ultimately show ?thesis using h(2,5) by blast
qed

lemma re_search_url_found:
  assumes "lang url_core u"
  shows "re_search url_search_pattern (a @ u @ b) \<noteq> None"
proof -
  let ?s = "a @ u @ b"
  have le: "length a \<le> length ?s" by simp
  have dot: "lang [Rep Dot 0 None] []" by (simp add: within_def)
  have "(length a + length u, [], [(length a, length a + length u)]) \<in>
          set (bt url_search_pattern ?s (length a, [], []))"
    unfolding search_mem[OF le]
    apply (rule exI[of _ "length a"], rule exI[of _ "length a + length u"],
           rule exI[of _ "length a + length u"])
    using assms dot by (simp add: slice_same slice_mid)
  then have "bt url_search_pattern ?s (length a, [], []) \<noteq> []" by auto
  moreover have "length a \<in> set [0 ..< Suc (length ?s)]" by simp
  ultimately have "search_from url_search_pattern ?s [0 ..< Suc (length ?s)] \<noteq> None"
    unfolding search_from_None by blast
  then show ?thesis by (simp add: re_search_def)
qed

lemma jupyter_url_total: "\<exists>url. jupyter_url outs = Inr url"
proof (cases "re_search url_search_pattern outs")
  case None
  then show ?thesis by (simp add: jupyter_url_def)
next
  case (Some gs)
  from re_search_url[OF this] obtain g where "gs = [g]" by blast
  then show ?thesis using Some by (simp add: jupyter_url_def match_group_1)
qed

lemma jupyter_url_sound:
  assumes "jupyter_url outs = Inr url" "url \<noteq> []"
  shows "\<exists>a b. outs = a @ url @ b \<and> lang url_core url"
proof -
  from assms obtain gs where gs: "re_search url_search_pattern outs = Some gs"
    and m: "match_group gs 1 = Inr url"
    by (auto simp: jupyter_url_def split: if_splits option.splits)
  from re_search_url[OF gs] obtain b e where h: "b \<le> e" "e \<le> length outs" "gs = [slice outs b e]"
    "lang url_core (slice outs b e)" by blast
  have "url = slice outs b e" using m h(3) by (simp add: match_group_1)
  moreover have "outs = take b outs @ slice outs b e @ drop e outs" using h(1,2) by (rule slices3)
  ultimately show ?thesis using h(4) by metis
qed

lemma jupyter_url_found:
  assumes "lang url_core u"
  shows "\<exists>url. jupyter_url (a @ u @ b) = Inr url \<and> url \<noteq> []"
proof -
  obtain gs where gs: "re_search url_search_pattern (a @ u @ b) = Some gs"
    using re_search_url_found[OF assms] by blast
  from re_search_url[OF gs] obtain g where g: "gs = [g]" "lang url_core g" by blast
  have "jupyter_url (a @ u @ b) = Inr g"
    using gs g(1) url_core_token[OF assms] by (simp add: jupyter_url_def match_group_1)
  then show ?thesis using url_core_nonempty[OF g(2)] by blast
qed

lemma jupyter_url_empty:
  "jupyter_url outs = Inr [] \<longleftrightarrow> \<not> (\<exists>a u b. outs = a @ u @ b \<and> lang url_core u)"
proof
  assume e: "jupyter_url outs = Inr []"
  show "\<not> (\<exists>a u b. outs = a @ u @ b \<and> lang url_core u)"
  proof
    assume "\<exists>a u b. outs = a @ u @ b \<and> lang url_core u"
    then obtain a u b where "outs = a @ u @ b" "lang url_core u" by blast
    then show False using jupyter_url_found[of u a b] e by auto
  qed
next
  assume n: "\<not> (\<exists>a u b. outs = a @ u @ b \<and> lang url_core u)"
  obtain url where u: "jupyter_url outs = Inr url" using jupyter_url_total by blast
  have "url = []"
  proof (rule ccontr)
    assume "url \<noteq> []"
    from jupyter_url_sound[OF u this] n show False by blast
  qed
  then show "jupyter_url outs = Inr []" using u by simp
qed

section \<open>Facts about the environment and the command runner\<close>

lemma get_var_present: "environ w var = Some v \<Longrightarrow> get_var w var dflt = Inr v"
  by (simp add: get_var_def)

lemma get_var_absent:
  "environ w var = None \<Longrightarrow>
   get_var w var dflt =
     (case dflt of
        None \<Rightarrow> Inl (RuntimeError (''Please set '' @ var @ '' environment variable''))
      | Some d \<Rightarrow> if d = [] then Inl (RuntimeError (''Please set '' @ var @ '' environment variable''))
                  else Inr d)"
  by (simp add: get_var_def split: option.splits)

lemma commands_of_append: "commands_of (xs @ ys) = commands_of xs @ commands_of ys"
  by (induction xs rule: commands_of.induct) auto

lemma run_ok:
  assumes "environ w ''CLUSTER'' = Some cluster"
    and "proc w (nrun s) (if local then argv else [''ssh'', cluster] @ argv) = (returncode, out, err)"
  shows "run w argv local debug s =
     (Inr (returncode, strip out, strip err),
      s\<lparr>trace := trace s @ [Exec (if local then argv else [''ssh'', cluster] @ argv)] @
            (if debug
             then [Print (''Executing command: '' @
                          join '' '' (if local then argv else [''ssh'', cluster] @ argv))]
             else []) @
            (if returncode \<noteq> 0 then [Print (strip err)] else []),
         nrun := Suc (nrun s)\<rparr>)"
  using assms by (cases local) (simp_all add: run_def get_var_present emit_def)

lemma run_unset:
  "environ w ''CLUSTER'' = None \<Longrightarrow>
   run w argv local debug s = (Inl (RuntimeError ''Please set CLUSTER environment variable''), s)"
  by (simp add: run_def get_var_absent)

section \<open>Facts about the loop\<close>

declare poll.simps [code]

lemma body_Inr:
  "fst (poll_body w job_id count s) = Inr url \<Longrightarrow> \<exists>outs. jupyter_url outs = Inr url"
  by (auto simp: poll_body_def bnd_def block_def get_jupyter_url_def check_jobfailure_def Let_def
           split: prod.splits sum.splits if_splits)

lemma poll_Some:
  assumes "poll w job_id count s = Some y"
  shows "fst y \<noteq> Inr [] \<and> (\<exists>n s0. y = poll_body w job_id n s0)"
proof -
  have step: "fst y \<noteq> Inr [] \<and> (\<exists>n s0. y = poll_body w job_id n s0)"
    if ih: "\<And>w job_id count s y. f w job_id count s = Some y \<Longrightarrow>
              fst y \<noteq> Inr [] \<and> (\<exists>n s0. y = poll_body w job_id n s0)"
    and eq: "(case poll_body w job_id count s of
                (Inl e, s') \<Rightarrow> Some (Inl e, s')
              | (Inr url, s') \<Rightarrow> if url = [] then f w job_id (Suc count) s' else Some (Inr url, s'))
             = Some y"
    for f w job_id count s y
  proof (cases "poll_body w job_id count s")
    case (Pair r s1)
    show ?thesis
    proof (cases r)
      case (Inl e)
      then have "y = poll_body w job_id count s" using eq Pair by simp
      moreover have "fst (poll_body w job_id count s) \<noteq> Inr []" using Pair Inl by simp
      ultimately show ?thesis by blast
    next
      case (Inr url)
      show ?thesis
      proof (cases "url = []")
        case True
        then have "f w job_id (Suc count) s1 = Some y" using eq Pair Inr by simp
        then show ?thesis by (rule ih)
      next
        case False
        then have "y = poll_body w job_id count s" using eq Pair Inr by simp
        moreover have "fst (poll_body w job_id count s) \<noteq> Inr []" using Pair Inr False by simp
        ultimately show ?thesis by blast
      qed
    qed
  qed
  show ?thesis
    by (rule poll.raw_induct[where P = "\<lambda>w job_id count s y.
               fst y \<noteq> Inr [] \<and> (\<exists>n s0. y = poll_body w job_id n s0)", OF step assms])
qed

lemma poll_Inr:
  assumes "poll w job_id count s = Some (Inr url, s')"
  shows "url \<noteq> [] \<and> (\<exists>outs. jupyter_url outs = Inr url)"
proof -
  from poll_Some[OF assms] obtain n s0 where "url \<noteq> []" "(Inr url, s') = poll_body w job_id n s0"
    by auto
  then show ?thesis using body_Inr[of w job_id n s0 url] by (metis fst_conv)
qed

lemma commands_emit [simp]:
  "commands (emit (Exec argv) s) = commands s @ [argv]"
  "commands (emit (Print x) s) = commands s"
  "commands (emit (Write x) s) = commands s"
  "commands (emit Flush s) = commands s"
  "commands (emit Sleep s) = commands s"
  "commands (emit Wait s) = commands s"
  "commands (emit (Popen argv) s) = commands s"
  "commands (emit (Browser x) s) = commands s"
  "commands (emit (MkTemp x) s) = commands s"
  "commands (emit (WriteFile x y) s) = commands s"
  by (simp_all add: commands_def emit_def commands_of_append)

lemma emit_fields [simp]:
  "nrun (emit ev s) = nrun s" "nblock (emit ev s) = nblock s"
  by (simp_all add: emit_def)

lemma commands_upd [simp]:
  "commands (s\<lparr>nrun := n\<rparr>) = commands s" "commands (s\<lparr>nblock := m\<rparr>) = commands s"
  by (simp_all add: commands_def)

text \<open>\<open>run\<close> on the cluster, by what it returns and what it leaves.\<close>

lemma run_remote:
  assumes "environ w ''CLUSTER'' = Some cluster"
  shows "\<exists>s'. run w argv False False s =
            (Inr (fst (proc w (nrun s) ([''ssh'', cluster] @ argv)),
                  strip (fst (snd (proc w (nrun s) ([''ssh'', cluster] @ argv)))),
                  strip (snd (snd (proc w (nrun s) ([''ssh'', cluster] @ argv))))), s') \<and>
          nrun s' = Suc (nrun s) \<and> nblock s' = nblock s \<and>
          commands s' = commands s @ [[''ssh'', cluster] @ argv]"
proof -
  obtain r out err where p: "proc w (nrun s) ([''ssh'', cluster] @ argv) = (r, out, err)"
    by (cases "proc w (nrun s) ([''ssh'', cluster] @ argv)") auto
  then have p': "proc w (nrun s) (if False then argv else [''ssh'', cluster] @ argv) = (r, out, err)"
    by simp
  show ?thesis
    unfolding run_ok[OF assms p'] p
    by (simp add: commands_def commands_of_append)
qed

lemma body_ok:
  assumes env: "environ w ''CLUSTER'' = Some cluster"
    and sig: "\<not> sigint w (nblock s)"
    and url: "jupyter_url (log_at w cluster job_id s 0) = Inr url"
  shows "\<exists>s'. poll_body w job_id count s =
            ((if contains ''FAILED'' (acct_at w cluster job_id s 0) then Inl (SystemExit 1)
              else Inr url), s') \<and>
          nrun s' = nrun s + 2 \<and> nblock s' = Suc (nblock s) \<and>
          commands s' = commands s @ [cat_cmd cluster job_id, sacct_cmd cluster job_id]"
proof -
  define s3 where "s3 = (let s1 = (emit Sleep s)\<lparr>nblock := Suc (nblock s)\<rparr>;
                  s2 = emit Flush (emit (Write (CHR 0x0D # ''+ Waiting URL ...   '')) s1)
              in if Suc count mod 2 = 0 then emit (Write (CHR 0x0D # ''.'')) s2 else s2)"
  have s3: "nrun s3 = nrun s" "nblock s3 = Suc (nblock s)" "commands s3 = commands s"
    by (simp_all add: s3_def Let_def)
  have b: "poll_body w job_id count s =
             bnd (get_jupyter_url w job_id s3)
                 (\<lambda>url s4. bnd (check_jobfailure w job_id s4)
                     (\<lambda>failed s5.
                        if failed then
                          (Inl (SystemExit 1),
                           emit (Print (''Job '' @ job_id @ '' failed please have a look at: ~/''
                                        @ error_file job_id)) s5)
                        else (Inr url, s5)))"
    using sig by (simp add: poll_body_def block_def bnd_def s3_def Let_def)
  from run_remote[OF env, of "[''cat'', error_file job_id]" s3]
  obtain s4' where r1: "run w [''cat'', error_file job_id] False False s3 =
       (Inr (fst (proc w (nrun s) (cat_cmd cluster job_id)), log_at w cluster job_id s 0,
             strip (snd (snd (proc w (nrun s) (cat_cmd cluster job_id))))), s4')"
    and s4': "nrun s4' = Suc (nrun s)" "nblock s4' = Suc (nblock s)"
             "commands s4' = commands s @ [cat_cmd cluster job_id]"
    by (auto simp: s3 cat_cmd_def log_at_def)
  define s4 where "s4 = (if fst (proc w (nrun s) (cat_cmd cluster job_id)) \<noteq> 0
                         then emit (Write (CHR 0x0D # ''Job has not started'')) s4' else s4')"
  have s4: "nrun s4 = Suc (nrun s)" "nblock s4 = Suc (nblock s)"
           "commands s4 = commands s @ [cat_cmd cluster job_id]"
    using s4' by (simp_all add: s4_def)
  have g: "get_jupyter_url w job_id s3 = (Inr url, s4)"
    by (simp add: get_jupyter_url_def r1 bnd_def url s4_def)
  from run_remote[OF env, of "[''sacct'', ''-j'', job_id, ''-n'']" s4]
  obtain s5 where r2: "run w [''sacct'', ''-j'', job_id, ''-n''] False False s4 =
       (Inr (fst (proc w (Suc (nrun s)) (sacct_cmd cluster job_id)), acct_at w cluster job_id s 0,
             strip (snd (snd (proc w (Suc (nrun s)) (sacct_cmd cluster job_id))))), s5)"
    and s5: "nrun s5 = nrun s + 2" "nblock s5 = Suc (nblock s)"
            "commands s5 = commands s @ [cat_cmd cluster job_id, sacct_cmd cluster job_id]"
    by (auto simp: s4 sacct_cmd_def acct_at_def)
  have c: "check_jobfailure w job_id s4 = (Inr (contains ''FAILED'' (acct_at w cluster job_id s 0)), s5)"
    by (simp add: check_jobfailure_def r2 bnd_def)
  show ?thesis
    unfolding b g
    using s5 by (simp add: bnd_def c)
qed

lemma log_at_shift:
  "nrun s' = nrun s + 2 * n \<Longrightarrow> log_at w cluster job_id s' k = log_at w cluster job_id s (n + k)"
  by (simp add: log_at_def algebra_simps)

lemma acct_at_shift:
  "nrun s' = nrun s + 2 * n \<Longrightarrow> acct_at w cluster job_id s' k = acct_at w cluster job_id s (n + k)"
  by (simp add: acct_at_def algebra_simps)

lemma concat_replicate_snoc: "concat (replicate (Suc n) x) = concat (replicate n x) @ x"
  by (induction n) auto

text \<open>
  The turns that find neither a URL nor a failure: the loop goes on to the next turn,
  and each of them has read the error file and then queried the accounting.
\<close>

lemma poll_turns:
  assumes env: "environ w ''CLUSTER'' = Some cluster"
  shows "(\<forall>k<n. \<not> sigint w (nblock s + k)) \<Longrightarrow>
         (\<forall>k<n. jupyter_url (log_at w cluster job_id s k) = Inr [] \<and>
                \<not> contains ''FAILED'' (acct_at w cluster job_id s k)) \<Longrightarrow>
         poll w job_id count s = poll w job_id (count + n) (turn_state w job_id count s n) \<and>
         nrun (turn_state w job_id count s n) = nrun s + 2 * n \<and>
         nblock (turn_state w job_id count s n) = nblock s + n \<and>
         commands (turn_state w job_id count s n) =
           commands s @ concat (replicate n [cat_cmd cluster job_id, sacct_cmd cluster job_id])"
proof (induction n)
  case 0
  then show ?case by simp
next
  case (Suc n)
  let ?t = "turn_state w job_id count s n"
  from Suc have ih: "poll w job_id count s = poll w job_id (count + n) ?t"
    "nrun ?t = nrun s + 2 * n" "nblock ?t = nblock s + n"
    "commands ?t = commands s @ concat (replicate n [cat_cmd cluster job_id, sacct_cmd cluster job_id])"
    by simp_all
  have sig: "\<not> sigint w (nblock ?t)" using Suc.prems(1) ih(3) by simp
  have url: "jupyter_url (log_at w cluster job_id ?t 0) = Inr []"
    using Suc.prems(2) log_at_shift[OF ih(2), of w cluster job_id 0] by simp
  have acct: "\<not> contains ''FAILED'' (acct_at w cluster job_id ?t 0)"
    using Suc.prems(2) acct_at_shift[OF ih(2), of w cluster job_id 0] by simp
  from body_ok[OF env sig url, of "count + n"] acct
  obtain s' where b: "poll_body w job_id (count + n) ?t = (Inr [], s')"
    "nrun s' = nrun ?t + 2" "nblock s' = Suc (nblock ?t)"
    "commands s' = commands ?t @ [cat_cmd cluster job_id, sacct_cmd cluster job_id]"
    by auto
  have ts: "turn_state w job_id count s (Suc n) = s'" using b(1) by simp
  have "poll w job_id (count + n) ?t = poll w job_id (Suc (count + n)) s'"
    by (subst poll.simps) (simp add: b(1))
  then have "poll w job_id count s = poll w job_id (count + Suc n) (turn_state w job_id count s (Suc n))"
    using ih(1) ts by simp
  moreover have "concat (replicate (Suc n) [cat_cmd cluster job_id, sacct_cmd cluster job_id]) =
        concat (replicate n [cat_cmd cluster job_id, sacct_cmd cluster job_id]) @
        [cat_cmd cluster job_id, sacct_cmd cluster job_id]"
    by (rule concat_replicate_snoc)
  ultimately show ?case
    unfolding ts using b(2,3,4) ih(2,3,4) by simp
qed

text \<open>The turn that ends the loop.\<close>

lemma poll_last:
  assumes env: "environ w ''CLUSTER'' = Some cluster"
    and sig: "\<forall>k<Suc n. \<not> sigint w (nblock s + k)"
    and before: "\<forall>k<n. jupyter_url (log_at w cluster job_id s k) = Inr [] \<and>
                        \<not> contains ''FAILED'' (acct_at w cluster job_id s k)"
    and url: "jupyter_url (log_at w cluster job_id s n) = Inr url"
    and ends: "contains ''FAILED'' (acct_at w cluster job_id s n) \<or> url \<noteq> []"
  shows "\<exists>s'. poll w job_id count s =
            Some ((if contains ''FAILED'' (acct_at w cluster job_id s n) then Inl (SystemExit 1)
                   else Inr url), s') \<and>
          nrun s' = nrun s + 2 * Suc n \<and>
          commands s' =
            commands s @ concat (replicate (Suc n) [cat_cmd cluster job_id, sacct_cmd cluster job_id])"
proof -
  let ?t = "turn_state w job_id count s n"
  have sig': "\<forall>k<n. \<not> sigint w (nblock s + k)" using sig by simp
  from poll_turns[OF env sig' before, of count]
  have t: "poll w job_id count s = poll w job_id (count + n) ?t"
    "nrun ?t = nrun s + 2 * n" "nblock ?t = nblock s + n"
    "commands ?t = commands s @ concat (replicate n [cat_cmd cluster job_id, sacct_cmd cluster job_id])"
    by simp_all
  have sg: "\<not> sigint w (nblock ?t)" using sig t(3) by simp
  have u: "jupyter_url (log_at w cluster job_id ?t 0) = Inr url"
    using url log_at_shift[OF t(2), of w cluster job_id 0] by simp
  have a: "acct_at w cluster job_id ?t 0 = acct_at w cluster job_id s n"
    using acct_at_shift[OF t(2), of w cluster job_id 0] by simp
  from body_ok[OF env sg u, of "count + n"]
  obtain s' where b: "poll_body w job_id (count + n) ?t =
       ((if contains ''FAILED'' (acct_at w cluster job_id s n) then Inl (SystemExit 1) else Inr url), s')"
    "nrun s' = nrun ?t + 2" "nblock s' = Suc (nblock ?t)"
    "commands s' = commands ?t @ [cat_cmd cluster job_id, sacct_cmd cluster job_id]"
    unfolding a by auto
  have "poll w job_id (count + n) ?t =
        Some ((if contains ''FAILED'' (acct_at w cluster job_id s n) then Inl (SystemExit 1)
               else Inr url), s')"
    using ends by (subst poll.simps) (auto simp: b(1))
  moreover have "concat (replicate (Suc n) [cat_cmd cluster job_id, sacct_cmd cluster job_id]) =
        concat (replicate n [cat_cmd cluster job_id, sacct_cmd cluster job_id]) @
        [cat_cmd cluster job_id, sacct_cmd cluster job_id]"
    by (rule concat_replicate_snoc)
  ultimately show ?thesis
    using t b(2,4) by simp
qed

lemma turn_state_shift:
  "turn_state w job_id count s (Suc n) =
   turn_state w job_id (Suc count) (snd (poll_body w job_id count s)) n"
proof (induction n)
  case 0
  then show ?case by simp
next
  case (Suc n)
  have "turn_state w job_id count s (Suc (Suc n)) =
        snd (poll_body w job_id (count + Suc n) (turn_state w job_id count s (Suc n)))"
    by simp
  also have "\<dots> = snd (poll_body w job_id (Suc count + n)
                       (turn_state w job_id (Suc count) (snd (poll_body w job_id count s)) n))"
    unfolding Suc.IH by simp
  finally show ?case by simp
qed

text \<open>
  A loop that ends, ends with the outcome of the first turn that does not leave the
  URL empty.
\<close>

lemma poll_first:
  assumes "poll w job_id count s = Some y"
  shows "\<exists>n. y = poll_body w job_id (count + n) (turn_state w job_id count s n) \<and>
             fst y \<noteq> Inr [] \<and>
             (\<forall>k<n. fst (poll_body w job_id (count + k) (turn_state w job_id count s k)) = Inr [])"
proof -
  let ?P = "\<lambda>w job_id count s y.
      \<exists>n. y = poll_body w job_id (count + n) (turn_state w job_id count s n) \<and>
          fst y \<noteq> Inr [] \<and>
          (\<forall>k<n. fst (poll_body w job_id (count + k) (turn_state w job_id count s k)) = Inr [])"
  have step: "?P w job_id count s y"
    if ih: "\<And>w job_id count s y. f w job_id count s = Some y \<Longrightarrow> ?P w job_id count s y"
    and eq: "(case poll_body w job_id count s of
                (Inl e, s') \<Rightarrow> Some (Inl e, s')
              | (Inr url, s') \<Rightarrow> if url = [] then f w job_id (Suc count) s' else Some (Inr url, s'))
             = Some y"
    for f w job_id count s y
  proof (cases "poll_body w job_id count s")
    case (Pair r s1)
    have now: "?P w job_id count s y" if "y = poll_body w job_id count s" "fst y \<noteq> Inr []"
    proof -
      have "y = poll_body w job_id (count + 0) (turn_state w job_id count s 0) \<and>
            fst y \<noteq> Inr [] \<and>
            (\<forall>k<0. fst (poll_body w job_id (count + k) (turn_state w job_id count s k)) = Inr [])"
        using that by simp
      then show ?thesis by blast
    qed
    show ?thesis
    proof (cases r)
      case (Inl e)
      then have "y = poll_body w job_id count s" "fst y \<noteq> Inr []" using eq Pair by auto
      then show ?thesis by (rule now)
    next
      case (Inr url)
      show ?thesis
      proof (cases "url = []")
        case True
        then have "f w job_id (Suc count) s1 = Some y" using eq Pair Inr by simp
        from ih[OF this] obtain n where n:
          "y = poll_body w job_id (Suc count + n) (turn_state w job_id (Suc count) s1 n)"
          "fst y \<noteq> Inr []"
          "\<forall>k<n. fst (poll_body w job_id (Suc count + k) (turn_state w job_id (Suc count) s1 k)) = Inr []"
          by blast
        have s1: "s1 = snd (poll_body w job_id count s)" using Pair by simp
        have sh: "turn_state w job_id (Suc count) s1 m = turn_state w job_id count s (Suc m)" for m
          unfolding s1 turn_state_shift ..
        have a: "y = poll_body w job_id (count + Suc n) (turn_state w job_id count s (Suc n))"
          using n(1) unfolding sh by simp
        have b: "fst (poll_body w job_id (count + k) (turn_state w job_id count s k)) = Inr []"
          if "k < Suc n" for k
        proof (cases k)
          case 0
          then show ?thesis using Pair Inr True by simp
        next
          case (Suc m)
          then have "m < n" using that by simp
          then have "fst (poll_body w job_id (Suc count + m) (turn_state w job_id (Suc count) s1 m)) = Inr []"
            using n(3) by blast
          then show ?thesis unfolding sh Suc by simp
        qed
        from a n(2) b show ?thesis by blast
      next
        case False
        then have "y = poll_body w job_id count s" "fst y \<noteq> Inr []" using eq Pair Inr by auto
        then show ?thesis by (rule now)
      qed
    qed
  qed
  show ?thesis
    by (rule poll.raw_induct[where P = ?P, OF step assms])
qed

lemma run_polls:
  assumes "\<And>c. \<not> is_poll ([''ssh'', c] @ argv)"
  shows "polls (snd (run w argv False False s)) = polls s"
proof (cases "environ w ''CLUSTER''")
  case None
  then show ?thesis by (simp add: run_unset)
next
  case (Some c)
  from run_remote[OF this, of argv s] assms[of c] show ?thesis
    by (auto simp: polls_def)
qed

lemma polls_emit [simp]:
  "polls (emit (Print x) s) = polls s"
  "polls (emit (Popen argv) s) = polls s"
  "polls (emit (Browser x) s) = polls s"
  "polls (emit Wait s) = polls s"
  "polls (s\<lparr>nblock := m\<rparr>) = polls s"
  by (simp_all add: polls_def)




section \<open>Facts about the first match\<close>

lemma concat_map_hd:
  "concat (map F xs) = r # rest \<Longrightarrow> \<exists>x rest'. x \<in> set xs \<and> F x = r # rest'"
proof (induction xs)
  case Nil
  then show ?case by simp
next
  case (Cons x xs)
  show ?case
  proof (cases "F x")
    case Nil
    then have "concat (map F xs) = r # rest" using Cons.prems by simp
    then show ?thesis using Cons.IH by auto
  next
    case (Cons y ys)
    then have "F x = r # ys" using Cons.prems by simp
    then show ?thesis by auto
  qed
qed

lemma plain_url_head: "list_all plain_item url_head"
  by (simp add: url_head_def ip_core_def)

lemma search_pattern_split2:
  "url_search_pattern =
     ([Rep Dot 0 None] @ [Open] @ url_head) @ [Rep Word 1 None, Close, Rep Dot 0 None]"
  by (simp add: url_search_pattern_def url_head_def ip_core_def)

lemma lang_url_head:
  "lang url_head u \<longleftrightarrow>
   (\<exists>ip port. u = ''http://'' @ ip @ '':'' @ port @ ''/?token='' \<and> lang ip_core ip \<and> port_ok port)"
proof -
  have split: "url_head = [Lit ''http://''] @ ip_core @ [Lit '':''] @ [Rep Digit 2 (Some 4)] @
                 [Lit ''/?token='']"
    by (simp add: url_head_def)
  show ?thesis
    unfolding split lang_append lang_port lang_lit
  proof (intro iffI; elim exE conjE)
    fix ip port
    assume A: "u = ''http://'' @ ip @ '':'' @ port @ ''/?token=''"
      "lang ip_core ip" "port_ok port"
    show "\<exists>v w. u = v @ w \<and> v = ''http://'' \<and> (\<exists>v wa. w = v @ wa \<and> lang ip_core v \<and>
       (\<exists>v w. wa = v @ w \<and> v = '':'' \<and> (\<exists>v wa. w = v @ wa \<and> port_ok v \<and> wa = ''/?token='')))"
      unfolding A(1) by (intro exI conjI; (rule refl | rule A))
  qed auto
qed

text \<open>
  The token of the first match: the longest run of word characters where the token
  starts.
\<close>

lemma tail_hd:
  assumes "bt [Rep Word 1 None, Close, Rep Dot 0 None] subj (j, [b], []) = r # rest"
  shows "snd (snd r) = [(b, j + length (takeWhile is_word (drop j subj)))] \<and>
         takeWhile is_word (drop j subj) \<noteq> []"
proof -
  let ?n = "length (takeWhile is_word (drop j subj))"
  let ?G = "\<lambda>k. map (\<lambda>k'. (j + k + k', [] :: nat list, [(b, j + k)]))
                    (rev [0 ..< Suc (run_len Dot None (drop (j + k) subj))])"
  have n: "run_len Word None (drop j subj) = ?n"
    by (simp add: run_len_def in_class.simps[abs_def])
  have F: "bt [Rep Word 1 None, Close, Rep Dot 0 None] subj (j, [b], []) =
           concat (map ?G (rev [1 ..< Suc ?n]))"
    by (simp add: n concat_map_singleton del: upt_Suc)
  have ne: "?G k \<noteq> []" for k by simp
  show ?thesis
  proof (cases "?n = 0")
    case True
    then have "bt [Rep Word 1 None, Close, Rep Dot 0 None] subj (j, [b], []) = []"
      unfolding F by simp
    then show ?thesis using assms by (metis list.distinct(1))
  next
    case False
    then have "1 \<le> ?n" by (cases "takeWhile is_word (drop j subj)") auto
    then have "rev [1 ..< Suc ?n] = ?n # rev [1 ..< ?n]" by (rule rev_upt_Suc)
    then have "r # rest = ?G ?n @ concat (map ?G (rev [1 ..< ?n]))"
      using assms unfolding F by simp
    moreover obtain g gs where g: "?G ?n = g # gs" using ne[of ?n] by (cases "?G ?n") auto
    ultimately have "r = g" by simp
    moreover have "g \<in> set (?G ?n)" using g by simp
    ultimately have "snd (snd r) = [(b, j + ?n)]" by auto
    then show ?thesis using False by auto
  qed
qed








section \<open>Which URL the search returns\<close>

lemma search_pattern_group: "url_search_pattern = Rep Dot 0 None # url_group"
  by (simp add: url_search_pattern_def url_group_def url_core_def ip_core_def)

lemma url_group_split1: "url_group = (Open # url_core @ [Close]) @ [Rep Dot 0 None]"
  by (simp add: url_group_def)

lemma url_group_split2:
  "url_group = ([Open] @ url_head) @ [Rep Word 1 None, Close, Rep Dot 0 None]"
  by (simp add: url_group_def url_core_def url_head_def)

text \<open>The first \<open>.*\<close> runs to the end of the line and gives back one character at a time.\<close>

lemma bt_search_start:
  "bt url_search_pattern subj (i, [], []) =
     concat (map (\<lambda>k. bt url_group subj (i + k, [], []))
                 (rev [0 ..< Suc (run_len Dot None (drop i subj))]))"
  unfolding search_pattern_group by (rule bt.simps)

lemma url_here_core: "url_here t \<longleftrightarrow> (\<exists>u b. t = u @ b \<and> lang url_core u)"
proof
  assume "url_here t"
  then obtain k where "lang url_core (take k t)"
    unfolding url_here_def list_ex_iff by blast
  moreover have "t = take k t @ drop k t" by simp
  ultimately show "\<exists>u b. t = u @ b \<and> lang url_core u" by blast
next
  assume "\<exists>u b. t = u @ b \<and> lang url_core u"
  then obtain u b where t: "t = u @ b" and u: "lang url_core u" by blast
  have "length u \<in> set [0 ..< Suc (length t)]" unfolding t by simp
  moreover have "lang url_core (take (length u) t)" unfolding t using u by simp
  ultimately show "url_here t" unfolding url_here_def list_ex_iff by blast
qed


lemma holds_url_here: "holds_url t \<longleftrightarrow> (\<exists>q\<le>length t. url_here (drop q t))"
proof -
  have "set [0 ..< Suc (length t)] = {q. q \<le> length t}" by auto
  then show ?thesis unfolding holds_url_def list_ex_iff by blast
qed

lemma holds_url_core: "holds_url t \<longleftrightarrow> (\<exists>a u b. t = a @ u @ b \<and> lang url_core u)"
proof
  assume "holds_url t"
  then obtain q where "url_here (drop q t)" unfolding holds_url_here by blast
  then obtain u b where "drop q t = u @ b" "lang url_core u" unfolding url_here_core by blast
  moreover have "t = take q t @ drop q t" by simp
  ultimately have "t = take q t @ u @ b \<and> lang url_core u" by simp
  then show "\<exists>a u b. t = a @ u @ b \<and> lang url_core u" by blast
next
  assume "\<exists>a u b. t = a @ u @ b \<and> lang url_core u"
  then obtain a u b where t: "t = a @ u @ b" and u: "lang url_core u" by blast
  have "drop (length a) t = u @ b" unfolding t by simp
  then have "url_here (drop (length a) t)" unfolding url_here_core using u by blast
  moreover have "length a \<le> length t" unfolding t by simp
  ultimately show "holds_url t" unfolding holds_url_here by blast
qed


lemma jupyter_url_none: "\<not> holds_url outs \<Longrightarrow> jupyter_url outs = Inr []"
  unfolding jupyter_url_empty holds_url_core .

text \<open>The group matches wherever a URL of the grammar starts.\<close>

lemma group_complete:
  assumes q: "q \<le> length subj" and h: "url_here (drop q subj)"
  shows "bt url_group subj (q, [], []) \<noteq> []"
proof -
  from h obtain u b where d: "drop q subj = u @ b" and u: "lang url_core u"
    unfolding url_here_core by blast
  have s: "slice subj q (q + length u) = u" unfolding slice_def d by simp
  have "length (drop q subj) = length u + length b" unfolding d by simp
  then have e: "q + length u \<le> length subj" using q by simp
  have "q \<le> q + length u \<and> q + length u \<le> length subj \<and>
        lang url_core (slice subj q (q + length u))"
    using e u s by simp
  then have 1: "(q + length u, [], [] @ [(q, q + length u)]) \<in>
             set (bt (Open # url_core @ [Close]) subj (q, [], []))"
    unfolding bt_group[OF plain_url_core q] by blast
  have p: "list_all plain_item [Rep Dot 0 None]" by simp
  have l: "lang [Rep Dot 0 None] []" by (simp add: within_def)
  have "((q + length u) + length ([] :: string), [], [] @ [(q, q + length u)]) \<in>
          set (bt [Rep Dot 0 None] subj (q + length u, [], [] @ [(q, q + length u)]))"
    by (rule plain_complete[OF p l]) (simp_all add: slice_same e)
  then have 2: "(q + length u, [], [] @ [(q, q + length u)]) \<in>
          set (bt [Rep Dot 0 None] subj (q + length u, [], [] @ [(q, q + length u)]))"
    by simp
  from 1 2 have "(q + length u, [], [] @ [(q, q + length u)]) \<in> set (bt url_group subj (q, [], []))"
    unfolding url_group_split1 bt_append_mem by blast
  then show ?thesis by (metis empty_iff empty_set)
qed

lemma drop_slice_drop: "q \<le> j \<Longrightarrow> drop q s = slice s q j @ drop j s"
proof -
  assume a: "q \<le> j"
  have "drop q s = take (j - q) (drop q s) @ drop (j - q) (drop q s)"
    by (rule append_take_drop_id[symmetric])
  also have "drop (j - q) (drop q s) = drop j s" using a by simp
  finally show ?thesis unfolding slice_def .
qed

text \<open>What the group takes where it matches: the URL with the whole of its token.\<close>

lemma group_hd:
  assumes q: "q \<le> length subj" and hd: "bt url_group subj (q, [], []) = r # rest"
  shows "\<exists>ip port token b.
           drop q subj = url_text ip port token @ b \<and> ipv4 ip \<and> port_ok port \<and> token_ok token \<and>
           (b = [] \<or> \<not> is_word (hd b)) \<and> group_texts subj r = [url_text ip port token]"
proof -
  from hd have "concat (map (bt [Rep Word 1 None, Close, Rep Dot 0 None] subj)
                  (bt ([Open] @ url_head) subj (q, [], []))) = r # rest"
    unfolding url_group_split2 bt_append .
  from concat_map_hd[OF this] obtain x rest' where
    x: "x \<in> set (bt ([Open] @ url_head) subj (q, [], []))"
    and fx: "bt [Rep Word 1 None, Close, Rep Dot 0 None] subj x = r # rest'"
    by blast
  from x have "x \<in> set (bt url_head subj (q, [q], []))" by simp
  then obtain j where j: "x = (j, [q], [])" "q \<le> j" "j \<le> length subj"
    "lang url_head (slice subj q j)"
    unfolding plain_iff[OF plain_url_head q] by blast
  let ?t = "takeWhile is_word (drop j subj)"
  let ?b = "dropWhile is_word (drop j subj)"
  from tail_hd[OF fx[unfolded j(1)]]
  have grp: "snd (snd r) = [(q, j + length ?t)]" and ne: "?t \<noteq> []" by blast+
  from j(4) obtain ip port where
    h: "slice subj q j = ''http://'' @ ip @ '':'' @ port @ ''/?token=''"
    "lang ip_core ip" "port_ok port"
    unfolding lang_url_head by blast
  have "drop q subj = slice subj q j @ drop j subj" using j(2) by (rule drop_slice_drop)
  also have "drop j subj = ?t @ ?b" by simp
  finally have d: "drop q subj = url_text ip port ?t @ ?b"
    unfolding h(1) url_text_def by simp
  have "\<forall>c \<in> set ?t. is_word c" by (meson set_takeWhileD)
  then have tok: "token_ok ?t" using ne by (cases ?t) (auto simp: token_ok_def list_all_iff)
  have e: "?b = [] \<or> \<not> is_word (hd ?b)" by (metis hd_dropWhile)
  have "slice subj j (j + length ?t) = ?t"
    unfolding slice_def using takeWhile_eq_take[of is_word "drop j subj"] by simp
  then have "slice subj q j @ ?t = slice subj q (j + length ?t)"
    using slice_append[of q j "j + length ?t" subj] j(2) by simp
  then have "slice subj q (j + length ?t) = url_text ip port ?t"
    unfolding h(1) by (simp add: url_text_def)
  then have g: "group_texts subj r = [url_text ip port ?t]"
    unfolding group_texts_def grp by simp
  have "drop q subj = url_text ip port ?t @ ?b \<and> ipv4 ip \<and> port_ok port \<and> token_ok ?t \<and>
        (?b = [] \<or> \<not> is_word (hd ?b)) \<and> group_texts subj r = [url_text ip port ?t]"
    using d h(2,3) tok e g unfolding ipv4_def by blast
  then show ?thesis by blast
qed

text \<open>The search takes the first start position that has a match.\<close>

lemma search_from_first:
  "search_from p subj [m ..< n] = Some gs \<Longrightarrow>
   \<exists>i st rest. m \<le> i \<and> i < n \<and> (\<forall>i'. m \<le> i' \<and> i' < i \<longrightarrow> bt p subj (i', [], []) = []) \<and>
      bt p subj (i, [], []) = st # rest \<and> gs = group_texts subj st"
proof (induction "n - m" arbitrary: m)
  case 0
  then show ?case by simp
next
  case (Suc d)
  then have mn: "m < n" by simp
  then have up: "[m ..< n] = m # [Suc m ..< n]" by (rule upt_conv_Cons)
  show ?case
  proof (cases "bt p subj (m, [], [])")
    case Nil
    then have "search_from p subj [Suc m ..< n] = Some gs" using Suc.prems unfolding up by simp
    moreover have "d = n - Suc m" using Suc.hyps(2) by simp
    ultimately obtain i st rest where i: "Suc m \<le> i" "i < n"
      "\<forall>i'. Suc m \<le> i' \<and> i' < i \<longrightarrow> bt p subj (i', [], []) = []"
      "bt p subj (i, [], []) = st # rest" "gs = group_texts subj st"
      using Suc.hyps(1) by blast
    have "\<forall>i'. m \<le> i' \<and> i' < i \<longrightarrow> bt p subj (i', [], []) = []"
    proof (intro allI impI)
      fix i' assume a: "m \<le> i' \<and> i' < i"
      show "bt p subj (i', [], []) = []"
      proof (cases "i' = m")
        case True
        then show ?thesis using Nil by simp
      next
        case False
        then have "Suc m \<le> i' \<and> i' < i" using a by simp
        then show ?thesis using i(3) by blast
      qed
    qed
    moreover have "m \<le> i" using i(1) by simp
    ultimately show ?thesis using i(2,4,5) by blast
  next
    case (Cons st rest)
    then have "gs = group_texts subj st" using Suc.prems unfolding up by simp
    moreover have "\<forall>i'. m \<le> i' \<and> i' < m \<longrightarrow> bt p subj (i', [], []) = []" by auto
    ultimately show ?thesis using Cons mn by blast
  qed
qed

text \<open>The first result of a greedy repetition comes from its longest run that goes on.\<close>

lemma concat_map_rev_hd:
  "concat (map F (rev [0 ..< Suc n])) = r # rest \<Longrightarrow>
   \<exists>k rest'. k \<le> n \<and> F k = r # rest' \<and> (\<forall>k'. k < k' \<and> k' \<le> n \<longrightarrow> F k' = [])"
proof (induction n)
  case 0
  then have "F 0 = r # rest" by simp
  then show ?case by blast
next
  case (Suc n)
  have "rev [0 ..< Suc (Suc n)] = Suc n # rev [0 ..< Suc n]" by (rule rev_upt_Suc) simp
  then have c: "F (Suc n) @ concat (map F (rev [0 ..< Suc n])) = r # rest"
    using Suc.prems by simp
  show ?case
  proof (cases "F (Suc n)")
    case Nil
    then have "concat (map F (rev [0 ..< Suc n])) = r # rest" using c by simp
    from Suc.IH[OF this] obtain k rest' where k: "k \<le> n" "F k = r # rest'"
      "\<forall>k'. k < k' \<and> k' \<le> n \<longrightarrow> F k' = []"
      by blast
    have "\<forall>k'. k < k' \<and> k' \<le> Suc n \<longrightarrow> F k' = []"
    proof (intro allI impI)
      fix k' assume a: "k < k' \<and> k' \<le> Suc n"
      show "F k' = []"
      proof (cases "k' = Suc n")
        case True
        then show ?thesis using Nil by simp
      next
        case False
        then have "k < k' \<and> k' \<le> n" using a by simp
        then show ?thesis using k(3) by blast
      qed
    qed
    moreover have "k \<le> Suc n" using k(1) by simp
    ultimately show ?thesis using k(2) by blast
  next
    case (Cons y ys)
    then have "F (Suc n) = r # ys" using c by simp
    moreover have "\<forall>k'. Suc n < k' \<and> k' \<le> Suc n \<longrightarrow> F k' = []" by auto
    ultimately show ?thesis by blast
  qed
qed

text \<open>
  The URL that the search returns from a text that holds one: it stands on the first
  line that has a URL, it is the last URL that starts on that line, and its token is
  taken in full.
\<close>

lemma jupyter_url_last:
  assumes h: "holds_url outs"
  shows "\<exists>a b ip port token.
           outs = a @ url_text ip port token @ b \<and> ipv4 ip \<and> port_ok port \<and> token_ok token \<and>
           (b = [] \<or> \<not> is_word (hd b)) \<and> last_on_first_line outs (length a) \<and>
           jupyter_url outs = Inr (url_text ip port token)"
proof -
  from h obtain a0 u0 b0 where o: "outs = a0 @ u0 @ b0" and u0: "lang url_core u0"
    unfolding holds_url_core by blast
  have tok: "contains ''token'' outs" unfolding o by (rule url_core_token[OF u0])
  obtain gs where gs: "re_search url_search_pattern outs = Some gs"
    using re_search_url_found[OF u0, of a0 b0] unfolding o by blast
  from search_from_first[OF gs[unfolded re_search_def]]
  obtain i st rest where i: "i < Suc (length outs)"
    and before: "\<forall>i'. 0 \<le> i' \<and> i' < i \<longrightarrow> bt url_search_pattern outs (i', [], []) = []"
    and hd: "bt url_search_pattern outs (i, [], []) = st # rest"
    and gt: "gs = group_texts outs st"
    by blast
  let ?n = "run_len Dot None (drop i outs)"
  from hd have "concat (map (\<lambda>k. bt url_group outs (i + k, [], [])) (rev [0 ..< Suc ?n])) = st # rest"
    unfolding bt_search_start .
  from concat_map_rev_hd[OF this] obtain k rest' where k: "k \<le> ?n"
    and kh: "bt url_group outs (i + k, [], []) = st # rest'"
    and later: "\<forall>k'. k < k' \<and> k' \<le> ?n \<longrightarrow> bt url_group outs (i + k', [], []) = []"
    by blast
  have il: "i \<le> length outs" using i by simp
  have "?n \<le> length (drop i outs)" by (rule run_len_le)
  then have pl: "i + k \<le> length outs" using k il by simp
  from group_hd[OF pl kh] obtain ip port token b where
    d: "drop (i + k) outs = url_text ip port token @ b"
    and g: "ipv4 ip" "port_ok port" "token_ok token"
    and e: "b = [] \<or> \<not> is_word (hd b)"
    and grp: "group_texts outs st = [url_text ip port token]"
    by blast
  let ?a = "take (i + k) outs"
  have la: "length ?a = i + k" using pl by simp
  have "outs = ?a @ drop (i + k) outs" by simp
  then have o': "outs = ?a @ url_text ip port token @ b" unfolding d .
  have j: "jupyter_url outs = Inr (url_text ip port token)"
    using tok gs gt grp by (simp add: jupyter_url_def match_group_1)
  have line: "list_all (in_class Dot) (slice outs i (i + k))"
    using run_len_class[OF k] unfolding slice_def by simp
  have c: "last_on_first_line outs (i + k)"
    unfolding last_on_first_line_def list_all_iff
  proof (intro ballI impI)
    fix q assume "q \<in> set [0 ..< Suc (length outs)]" and uq: "url_here (drop q outs)"
    then have ql: "q \<le> length outs" by auto
    have ne: "bt url_group outs (q, [], []) \<noteq> []" using group_complete[OF ql uq] .
    have qi: "i \<le> q"
    proof (rule ccontr)
      assume "\<not> i \<le> q"
      then have "bt url_search_pattern outs (q, [], []) = []" using before by simp
      then have "concat (map (\<lambda>k. bt url_group outs (q + k, [], []))
                   (rev [0 ..< Suc (run_len Dot None (drop q outs))])) = []"
        unfolding bt_search_start .
      then have "\<forall>k \<in> set (rev [0 ..< Suc (run_len Dot None (drop q outs))]).
                   bt url_group outs (q + k, [], []) = []"
        by simp
      moreover have "0 \<in> set (rev [0 ..< Suc (run_len Dot None (drop q outs))])" by auto
      ultimately have "bt url_group outs (q + 0, [], []) = []" by blast
      then show False using ne by simp
    qed
    show "if q \<le> i + k then newline \<notin> set (slice outs q (i + k))
          else newline \<in> set (slice outs (i + k) q)"
    proof (cases "q \<le> i + k")
      case True
      have "drop (q - i) (slice outs i (i + k)) = slice outs (i + (q - i)) (i + k)"
        by (rule drop_slice)
      then have "slice outs q (i + k) = drop (q - i) (slice outs i (i + k))" using qi by simp
      then have "set (slice outs q (i + k)) \<subseteq> set (slice outs i (i + k))"
        by (simp add: set_drop_subset)
      moreover have "newline \<notin> set (slice outs i (i + k))"
        using line by (auto simp: list_all_iff)
      ultimately show ?thesis using True by auto
    next
      case False
      have "newline \<in> set (slice outs (i + k) q)"
      proof (rule ccontr)
        assume n: "newline \<notin> set (slice outs (i + k) q)"
        have "slice outs i (i + k) @ slice outs (i + k) q = slice outs i q"
          by (rule slice_append) (use False in simp_all)
        then have "set (slice outs i q) = set (slice outs i (i + k)) \<union> set (slice outs (i + k) q)"
          by (metis set_append)
        then have "list_all (in_class Dot) (slice outs i q)"
          using line n by (auto simp: list_all_iff)
        then have "list_all (in_class Dot) (take (q - i) (drop i outs))" unfolding slice_def .
        moreover have "q - i \<le> length (drop i outs)" using ql by simp
        moreover have "within None (q - i)" by (simp add: within_def)
        ultimately have "q - i \<le> ?n" using run_len_ge by blast
        moreover have "k < q - i" using False qi by simp
        ultimately have "bt url_group outs (i + (q - i), [], []) = []" using later by blast
        then show False using ne qi by simp
      qed
      then show ?thesis using False by simp
    qed
  qed
  have "outs = ?a @ url_text ip port token @ b \<and> ipv4 ip \<and> port_ok port \<and> token_ok token \<and>
        (b = [] \<or> \<not> is_word (hd b)) \<and> last_on_first_line outs (length ?a) \<and>
        jupyter_url outs = Inr (url_text ip port token)"
    using o' g e c j unfolding la by blast
  then show ?thesis by blast
qed




text \<open>A URL starts with \<open>http://\<close>: a quick test for the evaluation of \<open>url_here\<close>.\<close>

lemma url_here_code [code]:
  "url_here t =
     (if take 7 t = ''http://''
      then list_ex (\<lambda>k. lang url_core (take k t)) [0 ..< Suc (length t)]
      else False)"
proof (cases "take 7 t = ''http://''")
  case True
  then show ?thesis by (simp add: url_here_def)
next
  case False
  have "\<not> url_here t"
  proof
    assume "url_here t"
    then obtain u b where t: "t = u @ b" and u: "lang url_core u" unfolding url_here_core by blast
    from u obtain r where "u = ''http://'' @ r" unfolding lang_url_core by blast
    then have "take 7 t = ''http://''" unfolding t by simp
    then show False using False by simp
  qed
  then show ?thesis using False by simp
qed

section \<open>Runs that do not end, and the end of the program\<close>

text \<open>A loop whose turns never see a URL, a failure report or an interrupt does not end.\<close>

lemma poll_never:
  assumes env: "environ w ''CLUSTER'' = Some cluster"
    and sig: "\<forall>k. \<not> sigint w (nblock s + k)"
    and quiet: "\<forall>k. jupyter_url (log_at w cluster job_id s k) = Inr [] \<and>
                    \<not> contains ''FAILED'' (acct_at w cluster job_id s k)"
  shows "poll w job_id count s = None"
proof (rule ccontr)
  assume "poll w job_id count s \<noteq> None"
  then obtain y where y: "poll w job_id count s = Some y" by blast
  from poll_first[OF y] obtain n where
    n: "y = poll_body w job_id (count + n) (turn_state w job_id count s n)" "fst y \<noteq> Inr []"
    by blast
  let ?s = "turn_state w job_id count s n"
  have s1: "\<forall>k<n. \<not> sigint w (nblock s + k)" using sig by blast
  have q1: "\<forall>k<n. jupyter_url (log_at w cluster job_id s k) = Inr [] \<and>
                  \<not> contains ''FAILED'' (acct_at w cluster job_id s k)"
    using quiet by blast
  from poll_turns[OF env s1 q1, of count]
  have r: "nrun ?s = nrun s + 2 * n" and b: "nblock ?s = nblock s + n" by blast+
  have sg: "\<not> sigint w (nblock ?s)" unfolding b using sig by blast
  have l: "log_at w cluster job_id ?s 0 = log_at w cluster job_id s (n + 0)"
    using r by (rule log_at_shift)
  have a: "acct_at w cluster job_id ?s 0 = acct_at w cluster job_id s (n + 0)"
    using r by (rule acct_at_shift)
  have u: "jupyter_url (log_at w cluster job_id ?s 0) = Inr []" unfolding l using quiet by simp
  have f: "\<not> contains ''FAILED'' (acct_at w cluster job_id ?s 0)" unfolding a using quiet by simp
  from body_ok[OF env sg u, of "count + n"] f
  have "fst (poll_body w job_id (count + n) ?s) = Inr []" by auto
  then show False using n by simp
qed


section \<open>The claims\<close>

subsection \<open>Environment variables\<close>

text \<open>
  C6, as amended.  \<open>get_var\<close> raises if and only if the variable is absent from the
  environment and no default other than the empty string is supplied (no default, or
  the empty string as the default), and then with the message that names the
  variable; a variable that is present is returned, whatever the default; an absent
  variable with a default that is not the empty string gives the default.
\<close>

theorem get_var_fails_iff:
  "((\<exists>e. get_var w var dflt = Inl e) =
      (environ w var = None \<and> (dflt = None \<or> dflt = Some []))) \<and>
   (environ w var = None \<and> (dflt = None \<or> dflt = Some []) \<longrightarrow>
      get_var w var dflt = Inl (RuntimeError (''Please set '' @ var @ '' environment variable''))) \<and>
   (\<forall>v. environ w var = Some v \<longrightarrow> get_var w var dflt = Inr v) \<and>
   (\<forall>d. environ w var = None \<and> dflt = Some d \<and> d \<noteq> [] \<longrightarrow> get_var w var dflt = Inr d)"
  by (cases "environ w var"; cases dflt) (auto simp: get_var_present get_var_absent)

theorem get_var_fails_iff_witness:
  "get_var scenario ''CLUSTER'' None = Inr ''hpc1'' \<and>
   get_var scenario ''CLUSTER'' (Some []) = Inr ''hpc1'' \<and>
   get_var scenario ''WORKDIR'' (Some ''~'') = Inr ''~'' \<and>
   get_var scenario ''WORKDIR'' None = Inl (RuntimeError ''Please set WORKDIR environment variable'')"
  using get_var_fails_iff [of scenario "''CLUSTER''" None]
        get_var_fails_iff [of scenario "''CLUSTER''" "Some []"]
        get_var_fails_iff [of scenario "''WORKDIR''" "Some ''~''"]
        get_var_fails_iff [of scenario "''WORKDIR''" None]
  by (simp add: scenario_def)

text \<open>
  C6, as stated, fails: with \<open>WORKDIR\<close> absent and the empty string as the default,
  \<open>get_var\<close> raises instead of returning the empty string.
\<close>

theorem get_var_empty_default:
  "environ scenario ''WORKDIR'' = None \<and>
   get_var scenario ''WORKDIR'' (Some []) =
     Inl (RuntimeError ''Please set WORKDIR environment variable'')"
  by (simp add: get_var_def scenario_def)

subsection \<open>The command runner\<close>

text \<open>
  C7.  When the cluster host is configured, \<open>run\<close> raises for no return code: it
  returns the return code with the standard output and the standard error of the
  command, both stripped of the white space around them, and when the return code is
  not zero it prints the standard error.  The command it runs is \<open>argv\<close> itself when
  \<open>local\<close> is true, and \<open>ssh\<close>, the cluster host and then \<open>argv\<close> when it is false.
\<close>

theorem run_returns_triple:
  "environ w ''CLUSTER'' = Some cluster \<Longrightarrow>
   proc w (nrun s) (if local then argv else [''ssh'', cluster] @ argv) = (returncode, out, err) \<Longrightarrow>
   fst (run w argv local debug s) = Inr (returncode, strip out, strip err) \<and>
   trace (snd (run w argv local debug s)) =
     trace s @ [Exec (if local then argv else [''ssh'', cluster] @ argv)] @
     (if debug
      then [Print (''Executing command: '' @ join '' '' (if local then argv else [''ssh'', cluster] @ argv))]
      else []) @
     (if returncode \<noteq> 0 then [Print (strip err)] else [])"
  by (simp add: run_ok)

theorem run_returns_triple_witness:
  "fst (run scenario [''cat'', ''.jupyterhpc/jupyterhpc-4821.error''] False False (init\<lparr>nrun := 2\<rparr>)) =
     Inr (1, [], ''cat: .jupyterhpc/jupyterhpc-4821.error: No such file or directory'') \<and>
   trace (snd (run scenario [''cat'', ''.jupyterhpc/jupyterhpc-4821.error''] False False (init\<lparr>nrun := 2\<rparr>))) =
     [Exec [''ssh'', ''hpc1'', ''cat'', ''.jupyterhpc/jupyterhpc-4821.error''],
      Print ''cat: .jupyterhpc/jupyterhpc-4821.error: No such file or directory'']"
proof -
  have e: "environ scenario ''CLUSTER'' = Some ''hpc1''" by (simp add: scenario_def)
  have p: "proc scenario (nrun (init\<lparr>nrun := 2\<rparr>))
             (if False then [''cat'', ''.jupyterhpc/jupyterhpc-4821.error'']
              else [''ssh'', ''hpc1''] @ [''cat'', ''.jupyterhpc/jupyterhpc-4821.error'']) =
           (1, [], ''cat: .jupyterhpc/jupyterhpc-4821.error: No such file or directory'' @ [newline])"
    by (simp add: scenario_def scenario_proc_def)
  show ?thesis
    using run_returns_triple [OF e p, of False]
    by (simp add: init_def strip_def is_space_def newline_def)
qed

text \<open>
  C9.  \<open>run\<close> resolves \<open>CLUSTER\<close> before anything else, also when \<open>local\<close> is true.  With
  \<open>CLUSTER\<close> unset, \<open>run\<close> and every function of the program that runs a command raise
  the error of the missing variable and run no command, and so does the program as a
  whole.
\<close>

theorem cluster_unset_fails_first:
  "environ w ''CLUSTER'' = None \<Longrightarrow>
   run w argv local debug s = (Inl (RuntimeError ''Please set CLUSTER environment variable''), s) \<and>
   send_job_script w script_path s =
     (Inl (RuntimeError ''Please set CLUSTER environment variable''), s) \<and>
   check_job_dir w s =
     (Inl (RuntimeError ''Please set CLUSTER environment variable''),
      emit (Print ''Checking job directory'') s) \<and>
   launch_job w script_name s =
     (Inl (RuntimeError ''Please set CLUSTER environment variable''),
      emit (Print ''Launching job'') s) \<and>
   check_jobfailure w job_id s =
     (Inl (RuntimeError ''Please set CLUSTER environment variable''), s) \<and>
   get_node w job_id s = (Inl (RuntimeError ''Please set CLUSTER environment variable''), s) \<and>
   delete_job w job_id s =
     (Inl (RuntimeError ''Please set CLUSTER environment variable''),
      emit (Print ''Deleting job'') s) \<and>
   get_jupyter_url w job_id s =
     (Inl (RuntimeError ''Please set CLUSTER environment variable''), s) \<and>
   (\<exists>msg s'. main w s = Some (Inl (RuntimeError msg), s') \<and> commands s' = commands s)"
proof -
  assume u: "environ w ''CLUSTER'' = None"
  have m: "\<exists>msg s'. main w s = Some (Inl (RuntimeError msg), s') \<and> commands s' = commands s"
  proof (cases "environ w ''PYTHON_VENV''")
    case None
    then show ?thesis
      by (simp add: main_def submit_def create_job_script_def bnd_def get_var_absent
                    commands_def emit_def commands_of_append)
  next
    case (Some venv)
    then show ?thesis
      by (cases "environ w ''WORKDIR''")
         (simp_all add: main_def submit_def create_job_script_def send_job_script_def bnd_def
                    get_var_absent get_var_present u commands_def emit_def commands_of_append)
  qed
  show ?thesis
    using m by (simp add: run_unset u send_job_script_def check_job_dir_def launch_job_def
                  check_jobfailure_def get_node_def delete_job_def get_jupyter_url_def bnd_def
                  get_var_absent)
qed

theorem cluster_unset_fails_first_witness:
  "run (scenario\<lparr>environ := [''PYTHON_VENV'' \<mapsto> ''/home/u/venv'']\<rparr>)
       [''scp'', ''/tmp/jupyterhpc_x3k2'', ''hpc1:/tmp/''] True False init =
     (Inl (RuntimeError ''Please set CLUSTER environment variable''), init) \<and>
   send_job_script (scenario\<lparr>environ := [''PYTHON_VENV'' \<mapsto> ''/home/u/venv'']\<rparr>)
       ''/tmp/jupyterhpc_x3k2'' init =
     (Inl (RuntimeError ''Please set CLUSTER environment variable''), init)"
  using cluster_unset_fails_first
          [of "scenario\<lparr>environ := [''PYTHON_VENV'' \<mapsto> ''/home/u/venv'']\<rparr>"
              "[''scp'', ''/tmp/jupyterhpc_x3k2'', ''hpc1:/tmp/'']" True False init
              "''/tmp/jupyterhpc_x3k2''"]
  by simp

subsection \<open>The polling loop\<close>

lemma submitted_nrun: "nrun submitted = 2"
  unfolding submitted_def by code_simp

lemma submitted_nblock: "nblock submitted = 0"
  unfolding submitted_def by code_simp


lemma scenario_cluster: "environ scenario ''CLUSTER'' = Some ''hpc1''"
  by (simp add: scenario_def)

lemma failing_cluster: "environ failing ''CLUSTER'' = Some ''hpc1''"
  by (simp add: failing_def scenario_def)

text \<open>
  C5, as amended.  Let the loop start in state \<open>s\<close> and let turn \<open>n\<close> be the first turn
  at which the text of the error file holds a URL of the grammar of the pattern (a
  port of two to four digits), with no turn up to it reporting the job as failed (and
  no interrupt).  Then the loop ends at turn \<open>n\<close>, after \<open>2 * (n + 1)\<close> commands, with
  the URL that \<open>jupyter_url\<close> takes from that text: the last URL of the first line
  that has one, with the whole of its token.  Nothing is asked of the return codes of
  the reads of the error file, nor of the texts of the turns before \<open>n\<close> but that they
  hold no URL: a read that fails gives a text without a URL and the loop goes on.
\<close>

theorem poll_reaches_ready:
  "environ w ''CLUSTER'' = Some cluster \<Longrightarrow>
   (\<forall>k<Suc n. \<not> sigint w (nblock s + k)) \<Longrightarrow>
   (\<forall>k<n. \<not> holds_url (log_at w cluster job_id s k)) \<Longrightarrow>
   holds_url (log_at w cluster job_id s n) \<Longrightarrow>
   (\<forall>k<Suc n. \<not> contains ''FAILED'' (acct_at w cluster job_id s k)) \<Longrightarrow>
   \<exists>url s'. poll w job_id count s = Some (Inr url, s') \<and> url \<noteq> [] \<and>
     nrun s' = nrun s + 2 * Suc n \<and>
     jupyter_url (log_at w cluster job_id s n) = Inr url \<and>
     (\<exists>a b ip port token.
        log_at w cluster job_id s n = a @ url @ b \<and> url = url_text ip port token \<and>
        ipv4 ip \<and> port_ok port \<and> token_ok token \<and> (b = [] \<or> \<not> is_word (hd b)) \<and>
        last_on_first_line (log_at w cluster job_id s n) (length a))"
proof -
  assume env: "environ w ''CLUSTER'' = Some cluster"
    and sig: "\<forall>k<Suc n. \<not> sigint w (nblock s + k)"
    and none: "\<forall>k<n. \<not> holds_url (log_at w cluster job_id s k)"
    and holds: "holds_url (log_at w cluster job_id s n)"
    and nofail: "\<forall>k<Suc n. \<not> contains ''FAILED'' (acct_at w cluster job_id s k)"
  let ?log = "log_at w cluster job_id s n"
  from jupyter_url_last[OF holds] obtain a b ip port token where
    d: "?log = a @ url_text ip port token @ b"
    and g: "ipv4 ip" "port_ok port" "token_ok token"
    and e: "b = [] \<or> \<not> is_word (hd b)"
    and c: "last_on_first_line ?log (length a)"
    and j: "jupyter_url ?log = Inr (url_text ip port token)"
    by blast
  have ne: "url_text ip port token \<noteq> []" by (simp add: url_text_def)
  have before: "\<forall>k<n. jupyter_url (log_at w cluster job_id s k) = Inr [] \<and>
                      \<not> contains ''FAILED'' (acct_at w cluster job_id s k)"
    using none nofail jupyter_url_none by auto
  have nf: "\<not> contains ''FAILED'' (acct_at w cluster job_id s n)" using nofail by blast
  have ends: "contains ''FAILED'' (acct_at w cluster job_id s n) \<or> url_text ip port token \<noteq> []"
    using ne by blast
  from poll_last[OF env sig before j ends, of count] nf
  obtain s' where p: "poll w job_id count s = Some (Inr (url_text ip port token), s')"
    "nrun s' = nrun s + 2 * Suc n"
    by auto
  have x: "\<exists>a b ip' port' token'.
        ?log = a @ url_text ip port token @ b \<and> url_text ip port token = url_text ip' port' token' \<and>
        ipv4 ip' \<and> port_ok port' \<and> token_ok token' \<and> (b = [] \<or> \<not> is_word (hd b)) \<and>
        last_on_first_line ?log (length a)"
    using d g e c by blast
  have "poll w job_id count s = Some (Inr (url_text ip port token), s') \<and>
        url_text ip port token \<noteq> [] \<and> nrun s' = nrun s + 2 * Suc n \<and>
        jupyter_url ?log = Inr (url_text ip port token) \<and>
        (\<exists>a b ip' port' token'.
          ?log = a @ url_text ip port token @ b \<and> url_text ip port token = url_text ip' port' token' \<and>
          ipv4 ip' \<and> port_ok port' \<and> token_ok token' \<and> (b = [] \<or> \<not> is_word (hd b)) \<and>
          last_on_first_line ?log (length a))"
    using p ne j x by blast
  then show ?thesis by blast
qed

theorem poll_reaches_ready_witness:
  "fst (proc scenario (nrun submitted) (cat_cmd ''hpc1'' ''4821'')) = 1 \<and>
   (\<exists>s'. poll scenario ''4821'' 0 submitted =
           Some (Inr ''http://10.0.0.5:9700/?token=abc123'', s') \<and> nrun s' = 6)"
proof -
  have h2: "\<forall>k<Suc 1. \<not> sigint scenario (nblock submitted + k)"
    by (simp add: submitted_nblock scenario_def)
  have l0: "\<not> holds_url (log_at scenario ''hpc1'' ''4821'' submitted 0)"
    unfolding log_at_def submitted_nrun by code_simp
  have h3: "\<forall>k<1. \<not> holds_url (log_at scenario ''hpc1'' ''4821'' submitted k)"
    using l0 by simp
  have h4: "holds_url (log_at scenario ''hpc1'' ''4821'' submitted 1)"
    unfolding log_at_def submitted_nrun by code_simp
  have a0: "\<not> contains ''FAILED'' (acct_at scenario ''hpc1'' ''4821'' submitted 0)"
    unfolding acct_at_def submitted_nrun by code_simp
  have a1: "\<not> contains ''FAILED'' (acct_at scenario ''hpc1'' ''4821'' submitted 1)"
    unfolding acct_at_def submitted_nrun by code_simp
  have h5: "\<forall>k<Suc 1. \<not> contains ''FAILED'' (acct_at scenario ''hpc1'' ''4821'' submitted k)"
    using a0 a1 by (simp add: less_Suc_eq)
  have u: "jupyter_url (log_at scenario ''hpc1'' ''4821'' submitted 1) =
             Inr ''http://10.0.0.5:9700/?token=abc123''"
    unfolding log_at_def submitted_nrun by code_simp
  have rc: "fst (proc scenario (nrun submitted) (cat_cmd ''hpc1'' ''4821'')) = 1"
    by (simp add: submitted_nrun scenario_def scenario_proc_def)
  show ?thesis
    using poll_reaches_ready [OF scenario_cluster h2 h3 h4 h5, of 0] u rc
    by (auto simp: submitted_nrun)
qed

text \<open>
  C5, as stated, fails: the error file holds a URL with an IPv4 host, the port 49152
  and an alphanumeric token at every turn of the loop, from the first one on, the
  accounting never reports a failure and nobody interrupts, and the loop does not end:
  \<open>main\<close> never returns.
\<close>

theorem five_digit_port_never_ready:
  "log_at never_ready ''hpc1'' ''4821'' submitted 0 = url_text ''10.0.0.5'' ''49152'' ''abc123'' \<and>
   ipv4 ''10.0.0.5'' \<and> list_all is_digit ''49152'' \<and> token_ok ''abc123'' \<and>
   \<not> contains ''FAILED'' (acct_at never_ready ''hpc1'' ''4821'' submitted 0) \<and>
   submit never_ready init = (Inr ''4821'', submitted) \<and>
   poll never_ready ''4821'' 0 submitted = None \<and>
   main never_ready init = None"
proof -
  have env: "environ never_ready ''CLUSTER'' = Some ''hpc1''"
    by (simp add: never_ready_def scenario_def)
  have sig: "\<forall>k. \<not> sigint never_ready (nblock submitted + k)"
    by (simp add: never_ready_def)
  have l: "log_at never_ready ''hpc1'' ''4821'' submitted k = ''http://10.0.0.5:49152/?token=abc123''"
    for k
    unfolding log_at_def submitted_nrun
    by (simp add: never_ready_def strip_def is_space_def newline_def)
  have a: "acct_at never_ready ''hpc1'' ''4821'' submitted k = ''4821 jupyterhpc cpu RUNNING 0:0''"
    for k
    unfolding acct_at_def submitted_nrun
    by (simp add: never_ready_def strip_def is_space_def newline_def)
  have j: "jupyter_url ''http://10.0.0.5:49152/?token=abc123'' = Inr []" by code_simp
  have f: "\<not> contains ''FAILED'' ''4821 jupyterhpc cpu RUNNING 0:0''" by code_simp
  have quiet: "\<forall>k. jupyter_url (log_at never_ready ''hpc1'' ''4821'' submitted k) = Inr [] \<and>
                   \<not> contains ''FAILED'' (acct_at never_ready ''hpc1'' ''4821'' submitted k)"
    unfolding l a using j f by simp
  have p: "poll never_ready ''4821'' 0 submitted = None"
    using env sig quiet by (rule poll_never)
  have s: "submit never_ready init = (Inr ''4821'', submitted)"
    unfolding submitted_def by code_simp
  have m: "main never_ready init = None" by (simp add: main_def s p)
  have u: "url_text ''10.0.0.5'' ''49152'' ''abc123'' = ''http://10.0.0.5:49152/?token=abc123''"
    by (simp add: url_text_def)
  have g: "ipv4 ''10.0.0.5''" "list_all is_digit ''49152''" "token_ok ''abc123''" by code_simp+
  show ?thesis unfolding u using l[of 0] a[of 0] f g s p m by simp
qed

text \<open>
  C1.  Every turn of the loop that is not interrupted in its sleep reads the error file
  and then queries the accounting, in this order.  When the loop reaches turn \<open>n\<close> and the accounting text of that turn
  contains \<open>FAILED\<close>, the loop ends with \<open>exit(1)\<close>, whatever the error file holds at
  that turn, and \<open>main\<close> ends with it.
\<close>

theorem failure_wins:
  "environ w ''CLUSTER'' = Some cluster \<Longrightarrow>
   (\<forall>k<Suc n. \<not> sigint w (nblock s + k)) \<Longrightarrow>
   (\<forall>k<n. jupyter_url (log_at w cluster job_id s k) = Inr [] \<and>
          \<not> contains ''FAILED'' (acct_at w cluster job_id s k)) \<Longrightarrow>
   contains ''FAILED'' (acct_at w cluster job_id s n) \<Longrightarrow>
   \<exists>s'. poll w job_id count s = Some (Inl (SystemExit 1), s') \<and>
        commands s' =
          commands s @ concat (replicate (Suc n) [cat_cmd cluster job_id, sacct_cmd cluster job_id]) \<and>
        (\<forall>s0. count = 0 \<and> submit w s0 = (Inr job_id, s) \<longrightarrow>
              main w s0 = Some (Inl (SystemExit 1), s')) \<and>
        (\<forall>c t. \<not> sigint w (nblock t) \<longrightarrow>
              commands (snd (poll_body w job_id c t)) =
                commands t @ [cat_cmd cluster job_id, sacct_cmd cluster job_id])"
proof -
  assume a: "environ w ''CLUSTER'' = Some cluster" "\<forall>k<Suc n. \<not> sigint w (nblock s + k)"
    "\<forall>k<n. jupyter_url (log_at w cluster job_id s k) = Inr [] \<and>
           \<not> contains ''FAILED'' (acct_at w cluster job_id s k)"
    "contains ''FAILED'' (acct_at w cluster job_id s n)"
  obtain url where u: "jupyter_url (log_at w cluster job_id s n) = Inr url"
    using jupyter_url_total by blast
  from poll_last[OF a(1,2,3) u, of count] a(4)
  obtain s' where s': "poll w job_id count s = Some (Inl (SystemExit 1), s')"
    "commands s' =
       commands s @ concat (replicate (Suc n) [cat_cmd cluster job_id, sacct_cmd cluster job_id])"
    by auto
  have m: "main w s0 = Some (Inl (SystemExit 1), s')"
    if "count = 0" "submit w s0 = (Inr job_id, s)" for s0
    using that s'(1) by (simp add: main_def)
  have t: "commands (snd (poll_body w job_id c t)) =
             commands t @ [cat_cmd cluster job_id, sacct_cmd cluster job_id]"
    if "\<not> sigint w (nblock t)" for c t
  proof -
    obtain v where "jupyter_url (log_at w cluster job_id t 0) = Inr v"
      using jupyter_url_total by blast
    from body_ok[OF a(1) that this, of c] show ?thesis by auto
  qed
  show ?thesis using s' m t by blast
qed

theorem failure_wins_witness:
  "jupyter_url (log_at failing ''hpc1'' ''4821'' submitted 1) =
     Inr ''http://10.0.0.5:9700/?token=abc123'' \<and>
   submit failing init = (Inr ''4821'', submitted) \<and>
   (\<exists>s'. main failing init = Some (Inl (SystemExit 1), s') \<and>
         commands s' = commands submitted @
           [cat_cmd ''hpc1'' ''4821'', sacct_cmd ''hpc1'' ''4821'',
            cat_cmd ''hpc1'' ''4821'', sacct_cmd ''hpc1'' ''4821''])"
proof -
  have h2: "\<forall>k<Suc 1. \<not> sigint failing (nblock submitted + k)"
    by (simp add: submitted_nblock failing_def scenario_def)
  have l0: "jupyter_url (log_at failing ''hpc1'' ''4821'' submitted 0) = Inr []"
    unfolding log_at_def submitted_nrun by code_simp
  have a0: "\<not> contains ''FAILED'' (acct_at failing ''hpc1'' ''4821'' submitted 0)"
    unfolding acct_at_def submitted_nrun by code_simp
  have h3: "\<forall>k<1. jupyter_url (log_at failing ''hpc1'' ''4821'' submitted k) = Inr [] \<and>
                 \<not> contains ''FAILED'' (acct_at failing ''hpc1'' ''4821'' submitted k)"
    using l0 a0 by simp
  have h4: "contains ''FAILED'' (acct_at failing ''hpc1'' ''4821'' submitted 1)"
    unfolding acct_at_def submitted_nrun by code_simp
  have u: "jupyter_url (log_at failing ''hpc1'' ''4821'' submitted 1) =
             Inr ''http://10.0.0.5:9700/?token=abc123''"
    unfolding log_at_def submitted_nrun by code_simp
  have s: "submit failing init = (Inr ''4821'', submitted)"
    unfolding submitted_def by code_simp
  show ?thesis
    using failure_wins [OF failing_cluster h2 h3 h4, of 0] u s by auto
qed

subsection \<open>After the loop\<close>





lemma connect_trace:
  assumes env: "environ w ''CLUSTER'' = Some cluster"
    and url: "parse_url url = Inr (Some (ip0, port, token))"
    and node: "proc w (nrun s) (squeue_cmd cluster job_id) = (0, node_out, node_err)"
    and cancel: "proc w (Suc (nrun s)) (scancel_cmd cluster job_id) = (rc, out, err)"
  shows "connect w job_id url s =
     (if sigint w (nblock s)
      then ((if rc = 0 then Inr () else Inl (RuntimeError (strip out))),
            s\<lparr>trace := trace s @
                 [Exec (squeue_cmd cluster job_id),
                  Print (''Opening SSH tunel on node '' @ strip (strip node_out) @ '' and port '' @ port),
                  Print (''Jupyter token: '' @ token),
                  Popen [''ssh'', ''-N'', cluster, ''-L'', ''8080:'' @ strip (strip node_out) @ '':'' @ port],
                  Browser (''http://127.0.0.1:8080/?token='' @ token),
                  Wait,
                  Print ''Deleting job'',
                  Exec (scancel_cmd cluster job_id)] @
                 (if rc = 0 then [Print ''Job CANCELLED''] else [Print (strip err)]),
               nrun := Suc (Suc (nrun s)), nblock := Suc (nblock s)\<rparr>)
      else (Inr (),
            s\<lparr>trace := trace s @
                 [Exec (squeue_cmd cluster job_id),
                  Print (''Opening SSH tunel on node '' @ strip (strip node_out) @ '' and port '' @ port),
                  Print (''Jupyter token: '' @ token),
                  Popen [''ssh'', ''-N'', cluster, ''-L'', ''8080:'' @ strip (strip node_out) @ '':'' @ port],
                  Browser (''http://127.0.0.1:8080/?token='' @ token),
                  Wait],
               nrun := Suc (nrun s), nblock := Suc (nblock s)\<rparr>))"
proof -
  have n: "proc w (nrun s)
             (if False then [''squeue'', ''-j'', job_id, ''-h'', ''--format'', ''%N'']
              else [''ssh'', cluster] @ [''squeue'', ''-j'', job_id, ''-h'', ''--format'', ''%N'']) =
           (0, node_out, node_err)"
    using node by (simp add: squeue_cmd_def)
  have g: "get_node w job_id s =
       (Inr (strip (strip node_out)),
        s\<lparr>trace := trace s @ [Exec (squeue_cmd cluster job_id)], nrun := Suc (nrun s)\<rparr>)"
    by (simp add: get_node_def run_ok[OF env n] bnd_def squeue_cmd_def)
  have d: "delete_job w job_id s' =
       ((if rc = 0 then Inr () else Inl (RuntimeError (strip out))),
        s'\<lparr>trace := trace s' @ [Print ''Deleting job'', Exec (scancel_cmd cluster job_id)] @
                 (if rc = 0 then [Print ''Job CANCELLED''] else [Print (strip err)]),
            nrun := Suc (Suc (nrun s))\<rparr>)"
    if "nrun s' = Suc (nrun s)" for s'
  proof -
    have c: "proc w (nrun (emit (Print ''Deleting job'') s'))
             (if False then [''scancel'', job_id] else [''ssh'', cluster] @ [''scancel'', job_id]) =
           (rc, out, err)"
      using cancel that by (simp add: scancel_cmd_def)
    show ?thesis
      unfolding delete_job_def run_ok[OF env c]
      using that by (simp add: bnd_def scancel_cmd_def emit_def)
  qed
  show ?thesis
    by (simp add: connect_def url g bnd_def get_var_present[OF env] block_def emit_def d Let_def)
qed

text \<open>
  The handler of \<open>main\<close>.  When the interrupt arrives while \<open>main\<close> waits on the tunnel,
  the program prints its message and runs \<open>scancel\<close> for the job once, and does nothing
  else: it makes no call that ends the tunnel process.  The result is the normal end of
  the program when \<open>scancel\<close> returns zero and a \<open>RuntimeError\<close> with its output
  otherwise.  Without an interrupt the wait ends the program and \<open>scancel\<close> is not run.
\<close>

lemma cancel_during_wait:
  "environ w ''CLUSTER'' = Some cluster \<Longrightarrow>
   parse_url url = Inr (Some (ip0, port, token)) \<Longrightarrow>
   proc w (nrun s) (squeue_cmd cluster job_id) = (0, node_out, node_err) \<Longrightarrow>
   proc w (Suc (nrun s)) (scancel_cmd cluster job_id) = (rc, out, err) \<Longrightarrow>
   (sigint w (nblock s) \<longrightarrow>
      fst (connect w job_id url s) = (if rc = 0 then Inr () else Inl (RuntimeError (strip out))) \<and>
      trace (snd (connect w job_id url s)) =
        trace s @
        [Exec (squeue_cmd cluster job_id),
         Print (''Opening SSH tunel on node '' @ strip (strip node_out) @ '' and port '' @ port),
         Print (''Jupyter token: '' @ token),
         Popen [''ssh'', ''-N'', cluster, ''-L'', ''8080:'' @ strip (strip node_out) @ '':'' @ port],
         Browser (''http://127.0.0.1:8080/?token='' @ token),
         Wait,
         Print ''Deleting job'',
         Exec (scancel_cmd cluster job_id)] @
        (if rc = 0 then [Print ''Job CANCELLED''] else [Print (strip err)])) \<and>
   (\<not> sigint w (nblock s) \<longrightarrow>
      fst (connect w job_id url s) = Inr () \<and>
      trace (snd (connect w job_id url s)) =
        trace s @
        [Exec (squeue_cmd cluster job_id),
         Print (''Opening SSH tunel on node '' @ strip (strip node_out) @ '' and port '' @ port),
         Print (''Jupyter token: '' @ token),
         Popen [''ssh'', ''-N'', cluster, ''-L'', ''8080:'' @ strip (strip node_out) @ '':'' @ port],
         Browser (''http://127.0.0.1:8080/?token='' @ token),
         Wait])"
  by (simp add: connect_trace)

lemma cancel_during_wait_scenario:
  "sigint scenario (nblock (init\<lparr>nrun := 6, nblock := 2\<rparr>)) \<and>
   fst (connect scenario ''4821'' ''http://10.0.0.5:9700/?token=abc123''
          (init\<lparr>nrun := 6, nblock := 2\<rparr>)) = Inr () \<and>
   trace (snd (connect scenario ''4821'' ''http://10.0.0.5:9700/?token=abc123''
                 (init\<lparr>nrun := 6, nblock := 2\<rparr>))) =
     [Exec (squeue_cmd ''hpc1'' ''4821''),
      Print ''Opening SSH tunel on node node05 and port 9700'',
      Print ''Jupyter token: abc123'',
      Popen [''ssh'', ''-N'', ''hpc1'', ''-L'', ''8080:node05:9700''],
      Browser ''http://127.0.0.1:8080/?token=abc123'',
      Wait,
      Print ''Deleting job'',
      Exec (scancel_cmd ''hpc1'' ''4821''),
      Print ''Job CANCELLED'']"
proof -
  have u: "parse_url ''http://10.0.0.5:9700/?token=abc123'' =
             Inr (Some (''10.0.0.5'', ''9700'', ''abc123''))"
    by code_simp
  have n: "proc scenario (nrun (init\<lparr>nrun := 6, nblock := 2\<rparr>)) (squeue_cmd ''hpc1'' ''4821'') =
             (0, ''node05'' @ [newline], [])"
    by (simp add: scenario_def scenario_proc_def)
  have c: "proc scenario (Suc (nrun (init\<lparr>nrun := 6, nblock := 2\<rparr>))) (scancel_cmd ''hpc1'' ''4821'') =
             (0, [], [])"
    by (simp add: scenario_def scenario_proc_def)
  have i: "sigint scenario (nblock (init\<lparr>nrun := 6, nblock := 2\<rparr>))"
    by (simp add: scenario_def)
  show ?thesis
    using cancel_during_wait [OF scenario_cluster u n c] i
    by (simp add: init_def strip_def is_space_def newline_def)
qed

text \<open>
  C4.  The claim fails on the code: an interrupt in the first sleep of the polling loop
  (session \<open>interrupted\<close>) ends the program with \<open>KeyboardInterrupt\<close>, and the commands
  it has run are the copy of the script and the submission; \<open>scancel\<close> is not among
  them, and the job that was submitted keeps running.  The same interrupt during the
  wait on the tunnel (session \<open>scenario\<close>) is caught by the handler of \<open>main\<close>, which
  cancels the job.
\<close>

theorem interrupt_while_polling:
  "map_option (\<lambda>(r, s). (r, commands s)) (main interrupted init) =
     Some (Inl KeyboardInterrupt,
           [[''scp'', ''/tmp/jupyterhpc_x3k2'', ''hpc1:/tmp/''],
            [''ssh'', ''hpc1'', ''sbatch'', ''/tmp/jupyterhpc_x3k2'']]) \<and>
   map_option (\<lambda>(r, s). (r, commands s)) (main scenario init) =
     Some (Inr (),
           [[''scp'', ''/tmp/jupyterhpc_x3k2'', ''hpc1:/tmp/''],
            [''ssh'', ''hpc1'', ''sbatch'', ''/tmp/jupyterhpc_x3k2''],
            [''ssh'', ''hpc1'', ''cat'', ''.jupyterhpc/jupyterhpc-4821.error''],
            [''ssh'', ''hpc1'', ''sacct'', ''-j'', ''4821'', ''-n''],
            [''ssh'', ''hpc1'', ''cat'', ''.jupyterhpc/jupyterhpc-4821.error''],
            [''ssh'', ''hpc1'', ''sacct'', ''-j'', ''4821'', ''-n''],
            [''ssh'', ''hpc1'', ''squeue'', ''-j'', ''4821'', ''-h'', ''--format'', ''%N''],
            [''ssh'', ''hpc1'', ''scancel'', ''4821'']])"
  by code_simp

subsection \<open>Submission\<close>

lemma take_prefix_iff: "take (length l) s = l \<longleftrightarrow> prefix l s"
proof
  assume "take (length l) s = l"
  then show "prefix l s" by (metis take_is_prefix)
next
  assume "prefix l s"
  then obtain r where "s = l @ r" by (auto simp: prefix_def)
  then show "take (length l) s = l" by simp
qed

lemma bt_lit_group_rep:
  "bt [Lit l, Open, Rep c lo hi, Close] subj (0, [], []) =
     (if prefix l subj
      then map (\<lambda>k. (length l + k, [], [(length l, length l + k)]))
               (rev [lo ..< Suc (run_len c hi (drop (length l) subj))])
      else [])"
  by (simp add: take_prefix_iff concat_map_singleton del: upt_Suc)

lemma job_match:
  "re_match job_pattern outs =
     (if prefix ''Submitted batch job '' outs \<and> takeWhile is_digit (drop 20 outs) \<noteq> []
      then Some [takeWhile is_digit (drop 20 outs)] else None)"
proof -
  let ?d = "takeWhile is_digit (drop 20 outs)"
  have n: "run_len Digit None (drop 20 outs) = length ?d"
    by (simp add: run_len_def in_class.simps[abs_def])
  have len: "length ''Submitted batch job '' = 20" by simp
  have bt0: "bt job_pattern outs (0, [], []) =
        (if prefix ''Submitted batch job '' outs
         then map (\<lambda>k. (20 + k, [], [(20, 20 + k)])) (rev [1 ..< Suc (length ?d)]) else [])"
    unfolding job_pattern_def bt_lit_group_rep len n by (rule refl)
  show ?thesis
  proof (cases "prefix ''Submitted batch job '' outs \<and> ?d \<noteq> []")
    case True
    then have "1 \<le> length ?d" by (cases ?d) auto
    then have "rev [1 ..< Suc (length ?d)] = length ?d # rev [1 ..< length ?d]"
      by (rule rev_upt_Suc)
    then have "bt job_pattern outs (0, [], []) =
       (20 + length ?d, [], [(20, 20 + length ?d)]) #
       map (\<lambda>k. (20 + k, [], [(20, 20 + k)])) (rev [1 ..< length ?d])"
      unfolding bt0 using True by simp
    moreover have "slice outs 20 (20 + length ?d) = ?d"
      unfolding slice_def using takeWhile_eq_take[of is_digit "drop 20 outs"] by simp
    ultimately show ?thesis using True by (simp add: re_match_def group_texts_def)
  next
    case False
    then have "bt job_pattern outs (0, [], []) = []" unfolding bt0 by auto
    then show ?thesis using False by (simp add: re_match_def)
  qed
qed

lemma digits_takeWhile:
  assumes "list_all is_digit n" "rest = [] \<or> \<not> is_digit (hd rest)"
  shows "takeWhile is_digit (n @ rest) = n"
proof -
  have "takeWhile is_digit rest = []" using assms(2) by (cases rest) auto
  then show ?thesis using assms(1) by (simp add: takeWhile_append2 list_all_iff)
qed

lemma launch_job_result:
  assumes env: "environ w ''CLUSTER'' = Some cluster"
    and p: "proc w (nrun s) (sbatch_cmd cluster script_name) = (rc, out, err)"
  shows "fst (launch_job w script_name s) =
     (if rc = 0 \<and> prefix ''Submitted batch job '' (strip out) \<and>
         takeWhile is_digit (drop 20 (strip out)) \<noteq> []
      then Inr (takeWhile is_digit (drop 20 (strip out)))
      else Inl (RuntimeError (strip out)))"
proof -
  have c: "proc w (nrun (emit (Print ''Launching job'') s))
             (if False then [''sbatch'', ''/tmp/'' @ script_name]
              else [''ssh'', cluster] @ [''sbatch'', ''/tmp/'' @ script_name]) = (rc, out, err)"
    using p by (simp add: sbatch_cmd_def)
  show ?thesis
    unfolding launch_job_def run_ok[OF env c]
    by (simp add: bnd_def job_match match_group_1 Let_def)
qed

lemma launch_job_polls: "polls (snd (launch_job w script_name s)) = polls s"
proof -
  have "polls (snd (run w [''sbatch'', ''/tmp/'' @ script_name] False False
                      (emit (Print ''Launching job'') s))) = polls s"
    using run_polls[of "[''sbatch'', ''/tmp/'' @ script_name]" w "emit (Print ''Launching job'') s"]
    by simp
  then show ?thesis
    by (auto simp: launch_job_def bnd_def Let_def split: prod.splits sum.splits option.splits)
qed

lemma send_job_script_polls: "polls (snd (send_job_script w script_path s)) = polls s"
proof (cases "environ w ''CLUSTER''")
  case None
  then show ?thesis by (simp add: send_job_script_def get_var_absent)
next
  case (Some c)
  obtain rc out err where p: "proc w (nrun s)
      (if True then [''scp'', script_path, c @ '':/tmp/'']
       else [''ssh'', c] @ [''scp'', script_path, c @ '':/tmp/'']) = (rc, out, err)"
    by (metis prod_cases3)
  have "c @ '':/tmp/'' \<noteq> x" if "length x < 6" for x
  proof
    assume "c @ '':/tmp/'' = x"
    then have "length (c @ '':/tmp/'') = length x" by (rule arg_cong)
    then show False using that by simp
  qed
  then have "c @ '':/tmp/'' \<noteq> ''cat''" "c @ '':/tmp/'' \<noteq> ''sacct''" by simp_all
  then show ?thesis
    unfolding send_job_script_def get_var_present[OF Some] option.case sum.case run_ok[OF Some p]
    by (simp add: bnd_def polls_def commands_def commands_of_append)
qed

lemma create_job_script_polls: "polls (snd (create_job_script w s)) = polls s"
  by (simp add: create_job_script_def Let_def polls_def commands_def emit_def commands_of_append
           split: sum.splits)

lemma submit_polls: "polls (snd (submit w s)) = polls s"
proof -
  obtain r1 s1 where c: "create_job_script w s = (r1, s1)" by (cases "create_job_script w s")
  have p1: "polls s1 = polls s" using create_job_script_polls[of w s] c by simp
  show ?thesis
  proof (cases r1)
    case (Inl e)
    then show ?thesis using c p1 by (simp add: submit_def bnd_def)
  next
    case path: (Inr script_path)
    obtain r2 s2 where t: "send_job_script w script_path s1 = (r2, s2)"
      by (cases "send_job_script w script_path s1")
    have p2: "polls s2 = polls s" using send_job_script_polls[of w script_path s1] t p1 by simp
    show ?thesis
    proof (cases r2)
      case (Inl e)
      then show ?thesis using c path t p2 by (simp add: submit_def bnd_def)
    next
      case (Inr u)
      obtain r3 s3 where l: "launch_job w (basename script_path) s2 = (r3, s3)"
        by (cases "launch_job w (basename script_path) s2")
      have p3: "polls s3 = polls s"
        using launch_job_polls[of w "basename script_path" s2] l p2 by simp
      show ?thesis using c path t Inr l p3 by (cases r3) (simp_all add: submit_def bnd_def)
    qed
  qed
qed

text \<open>
  C3, as amended.  The submission is run on the cluster and its standard output is
  stripped of the white space around it.  When the command returns zero and that text
  begins with \<open>Submitted batch job\<close>, a space and one or more digits, \<open>launch_job\<close>
  returns the digits up to the first character that is not one, whatever their number.
  When the command returns a code other than zero, or the text does not begin so,
  \<open>launch_job\<close> raises a \<open>RuntimeError\<close> that carries the stripped text.  When the
  submission fails, \<open>main\<close> ends with its error and has run no polling command.
\<close>

theorem launch_job_parses_id:
  "environ w ''CLUSTER'' = Some cluster \<Longrightarrow>
   proc w (nrun s) (sbatch_cmd cluster script_name) = (rc, out, err) \<Longrightarrow>
   (\<forall>n rest. rc = 0 \<and> strip out = ''Submitted batch job '' @ n @ rest \<and> n \<noteq> [] \<and>
             list_all is_digit n \<and> (rest = [] \<or> \<not> is_digit (hd rest)) \<longrightarrow>
             fst (launch_job w script_name s) = Inr n) \<and>
   (rc \<noteq> 0 \<or> \<not> (\<exists>n rest. strip out = ''Submitted batch job '' @ n @ rest \<and> n \<noteq> [] \<and>
                            list_all is_digit n) \<longrightarrow>
      fst (launch_job w script_name s) = Inl (RuntimeError (strip out))) \<and>
   (\<forall>s0 e. fst (submit w s0) = Inl e \<longrightarrow>
      (\<exists>s'. main w s0 = Some (Inl e, s') \<and> polls s' = polls s0))"
proof -
  assume env: "environ w ''CLUSTER'' = Some cluster"
    and p: "proc w (nrun s) (sbatch_cmd cluster script_name) = (rc, out, err)"
  note r = launch_job_result[OF env p]
  have a: "fst (launch_job w script_name s) = Inr n"
    if "rc = 0" "strip out = ''Submitted batch job '' @ n @ rest" "n \<noteq> []"
       "list_all is_digit n" "rest = [] \<or> \<not> is_digit (hd rest)" for n rest
  proof -
    have "takeWhile is_digit (drop 20 (strip out)) = n"
      using that(2) digits_takeWhile[OF that(4,5)] by simp
    moreover have "prefix ''Submitted batch job '' (strip out)"
      unfolding that(2) by (rule prefixI) (rule refl)
    ultimately show ?thesis using that(1,3) unfolding r by simp
  qed
  have b: "fst (launch_job w script_name s) = Inl (RuntimeError (strip out))"
    if "rc \<noteq> 0 \<or> \<not> (\<exists>n rest. strip out = ''Submitted batch job '' @ n @ rest \<and> n \<noteq> [] \<and>
                            list_all is_digit n)"
  proof (cases "rc = 0 \<and> prefix ''Submitted batch job '' (strip out) \<and>
                takeWhile is_digit (drop 20 (strip out)) \<noteq> []")
    case True
    let ?n = "takeWhile is_digit (drop 20 (strip out))"
    from True obtain t where t: "strip out = ''Submitted batch job '' @ t"
      by (auto simp: prefix_def)
    then have "t = ?n @ dropWhile is_digit t" by simp
    then have "strip out = ''Submitted batch job '' @ ?n @ dropWhile is_digit t"
      using t by simp
    moreover have "list_all is_digit ?n"
      by (simp add: list_all_iff) (metis set_takeWhileD)
    ultimately show ?thesis using that True by blast
  next
    case False
    then show ?thesis unfolding r by auto
  qed
  have c: "\<exists>s'. main w s0 = Some (Inl e, s') \<and> polls s' = polls s0"
    if "fst (submit w s0) = Inl e" for s0 e
  proof -
    define s1 where "s1 = snd (submit w s0)"
    have s1: "submit w s0 = (Inl e, s1)"
      using that by (simp add: s1_def prod_eq_iff)
    then have "main w s0 = Some (Inl e, s1)" by (simp add: main_def)
    moreover have "polls s1 = polls s0" using submit_polls[of w s0] s1 by simp
    ultimately show ?thesis by blast
  qed
  show ?thesis using a b c by blast
qed

theorem launch_job_parses_id_witness:
  "fst (launch_job scenario ''jupyterhpc_x3k2'' (init\<lparr>nrun := 1\<rparr>)) = Inr ''4821'' \<and>
   fst (launch_job scenario ''jupyterhpc_x3k2'' (init\<lparr>nrun := 2\<rparr>)) = Inl (RuntimeError [])"
proof -
  have p1: "proc scenario (nrun (init\<lparr>nrun := 1\<rparr>)) (sbatch_cmd ''hpc1'' ''jupyterhpc_x3k2'') =
              (0, ''Submitted batch job 4821'' @ [newline], [])"
    by (simp add: scenario_def scenario_proc_def)
  have p2: "proc scenario (nrun (init\<lparr>nrun := 2\<rparr>)) (sbatch_cmd ''hpc1'' ''jupyterhpc_x3k2'') =
              (1, [], ''cat: .jupyterhpc/jupyterhpc-4821.error: No such file or directory'' @ [newline])"
    by (simp add: scenario_def scenario_proc_def)
  have s1: "strip (''Submitted batch job 4821'' @ [newline]) = ''Submitted batch job '' @ ''4821'' @ []"
    by code_simp
  have d: "list_all is_digit ''4821''" by code_simp
  have s2: "strip [] = []" by (simp add: strip_def)
  from launch_job_parses_id [OF scenario_cluster p1] s1 d
  have "fst (launch_job scenario ''jupyterhpc_x3k2'' (init\<lparr>nrun := 1\<rparr>)) = Inr ''4821''"
    by (metis list.distinct(1))
  moreover from launch_job_parses_id [OF scenario_cluster p2] s2
  have "fst (launch_job scenario ''jupyterhpc_x3k2'' (init\<lparr>nrun := 2\<rparr>)) = Inl (RuntimeError [])"
    by simp
  ultimately show ?thesis by simp
qed

text \<open>
  C3, as stated, fails: the standard output of the submission holds the line
  \<open>Submitted batch job 4821\<close> after a note of the scheduler, the command returns zero,
  and \<open>main\<close> ends with the \<open>RuntimeError\<close> of \<open>launch_job\<close>.
\<close>

theorem job_line_not_first:
  "proc noisy 1 (sbatch_cmd ''hpc1'' ''jupyterhpc_x3k2'') =
     (0, ''sbatch: note: partition set to cpu'' @ [newline] @
         ''Submitted batch job 4821'' @ [newline], []) \<and>
   map_option fst (main noisy init) =
     Some (Inl (RuntimeError (''sbatch: note: partition set to cpu'' @ [newline] @
                              ''Submitted batch job 4821'')))"
  by code_simp

subsection \<open>The URL\<close>

lemma ipv4_iff:
  "ipv4 ip \<longleftrightarrow>
   (\<exists>a b c d. ip = a @ ''.'' @ b @ ''.'' @ c @ ''.'' @ d \<and> quad a \<and> quad b \<and> quad c \<and> quad d)"
  unfolding ipv4_def by (rule lang_ip_core)

lemma connect_bound:
  assumes "parse_url url = Inr (Some t)"
  shows "fst (connect w job_id url s) \<noteq> Inl (UnboundLocalError v)"
proof -
  obtain ip0 port token where t: "t = (ip0, port, token)" by (cases t)
  obtain r s1 where g: "get_node w job_id s = (r, s1)" by (cases "get_node w job_id s")
  have gn: "r \<noteq> Inl (UnboundLocalError v)"
    using g by (cases "environ w ''CLUSTER''")
      (auto simp: get_node_def run_def get_var_def bnd_def Let_def split: prod.splits if_splits)
  show ?thesis
  proof (cases r)
    case (Inl e)
    then show ?thesis using assms g gn by (simp add: connect_def bnd_def)
  next
    case ip: (Inr ip)
    show ?thesis
    proof (cases "environ w ''CLUSTER''")
      case None
      then show ?thesis using assms t g ip
        by (simp add: connect_def bnd_def Let_def get_var_absent)
    next
      case (Some c)
      obtain r' s' where d: "delete_job w job_id
          ((emit Wait (emit (Browser (''http://127.0.0.1:8080/?token='' @ token))
             (emit (Popen [''ssh'', ''-N'', c, ''-L'', ''8080:'' @ ip @ '':'' @ port])
               (emit (Print (''Jupyter token: '' @ token))
                 (emit (Print (''Opening SSH tunel on node '' @ ip @ '' and port '' @ port)) s1)))))
            \<lparr>nblock := Suc (nblock s1)\<rparr>) = (r', s')"
        by (metis surj_pair)
      have "r' \<noteq> Inl (UnboundLocalError v)"
        using d Some
        by (auto simp: delete_job_def run_def get_var_def bnd_def Let_def split: prod.splits if_splits)
      then show ?thesis using assms t g ip Some d
        by (simp add: connect_def bnd_def Let_def get_var_present block_def)
    qed
  qed
qed

text \<open>
  C10.  \<open>get_jupyter_url\<close> returns the value of \<open>jupyter_url\<close> on the text of the error
  file.  That value is never an exception, and when it is not the empty string it is
  \<open>http://\<close>, four groups of one to three digits with dots between them, a colon, two to
  four digits, \<open>/?token=\<close> and one or more word characters, and nothing else.  The
  anchored match of \<open>main\<close> succeeds on it and binds \<open>ip\<close>, \<open>port\<close> and \<open>token\<close> to its
  three parts.  So \<open>connect\<close> does not end with the error of the unbound names on it,
  and \<open>main\<close> never ends with that error.
\<close>

theorem rematch_succeeds:
  "(\<exists>url. jupyter_url outs = Inr url) \<and>
   (jupyter_url outs = Inr url \<and> url \<noteq> [] \<longrightarrow>
      (\<exists>a b c d port token.
          url = ''http://'' @ a @ ''.'' @ b @ ''.'' @ c @ ''.'' @ d @ '':'' @ port @ ''/?token='' @ token \<and>
          quad a \<and> quad b \<and> quad c \<and> quad d \<and> port_ok port \<and> token_ok token \<and>
          parse_url url = Inr (Some (a @ ''.'' @ b @ ''.'' @ c @ ''.'' @ d, port, token))) \<and>
      (\<forall>w job_id s v. fst (connect w job_id url s) \<noteq> Inl (UnboundLocalError v))) \<and>
   (\<forall>w s r s' v. main w s = Some (r, s') \<longrightarrow> r \<noteq> Inl (UnboundLocalError v))"
proof -
  have found: "(\<exists>a b c d port token.
          url = ''http://'' @ a @ ''.'' @ b @ ''.'' @ c @ ''.'' @ d @ '':'' @ port @ ''/?token='' @ token \<and>
          quad a \<and> quad b \<and> quad c \<and> quad d \<and> port_ok port \<and> token_ok token \<and>
          parse_url url = Inr (Some (a @ ''.'' @ b @ ''.'' @ c @ ''.'' @ d, port, token))) \<and>
      (\<forall>w job_id s v. fst (connect w job_id url s) \<noteq> Inl (UnboundLocalError v))"
    if u: "jupyter_url outs = Inr url" "url \<noteq> []" for outs url
  proof -
    from jupyter_url_sound[OF u] have "lang url_core url" by blast
    from parse_url_complete[OF this] obtain ip port token where
      p: "parse_url url = Inr (Some (ip, port, token))"
         "url = ''http://'' @ ip @ '':'' @ port @ ''/?token='' @ token"
         "lang ip_core ip" "port_ok port" "token_ok token"
      by blast
    from p(3) obtain a b c d where
      q: "ip = a @ ''.'' @ b @ ''.'' @ c @ ''.'' @ d" "quad a" "quad b" "quad c" "quad d"
      unfolding lang_ip_core by blast
    have "url = ''http://'' @ a @ ''.'' @ b @ ''.'' @ c @ ''.'' @ d @ '':'' @ port @ ''/?token='' @ token"
      using p(2) q(1) by simp
    moreover have "parse_url url = Inr (Some (a @ ''.'' @ b @ ''.'' @ c @ ''.'' @ d, port, token))"
      using p(1) q(1) by simp
    moreover have "\<forall>w job_id s v. fst (connect w job_id url s) \<noteq> Inl (UnboundLocalError v)"
      using connect_bound[OF p(1)] by blast
    ultimately show ?thesis using q(2-5) p(4,5) by blast
  qed
  have m: "r \<noteq> Inl (UnboundLocalError v)" if "main w s = Some (r, s')" for w s r s' v
  proof (cases "submit w s")
    case (Pair r1 s1)
    show ?thesis
    proof (cases r1)
      case (Inl e)
      have "e \<noteq> UnboundLocalError v"
        using Pair Inl
        by (auto simp: submit_def create_job_script_def send_job_script_def launch_job_def
                       run_def get_var_def bnd_def Let_def match_group_def
                 split: prod.splits sum.splits option.splits if_splits)
      then show ?thesis using that Pair Inl by (auto simp: main_def)
    next
      case (Inr job_id)
      show ?thesis
      proof (cases "poll w job_id 0 s1")
        case None
        then show ?thesis using that Pair Inr by (simp add: main_def)
      next
        case (Some y)
        obtain v1 s2 where y: "y = (v1, s2)" by (cases y)
        show ?thesis
        proof (cases v1)
          case e: (Inl e)
          from poll_Some[OF Some] obtain n s0 where "(Inl e, s2) = poll_body w job_id n s0"
            unfolding y e by auto
          then have "fst (poll_body w job_id n s0) = Inl e" by (metis fst_conv)
          moreover have "jupyter_url x \<noteq> Inl e'" for x e'
            using jupyter_url_total[of x] by auto
          ultimately have "e \<noteq> UnboundLocalError v"
            by (auto simp: poll_body_def block_def get_jupyter_url_def check_jobfailure_def
                           run_def get_var_def bnd_def Let_def
                     split: prod.splits sum.splits option.splits if_splits)
          then show ?thesis using that Pair Inr Some y e by (auto simp: main_def)
        next
          case u: (Inr url)
          from poll_Inr[OF Some[unfolded y u]] obtain outs where
            "url \<noteq> []" "jupyter_url outs = Inr url" by blast
          from found[OF this(2,1)] have "fst (connect w job_id url s2) \<noteq> Inl (UnboundLocalError v)"
            by blast
          then show ?thesis using that Pair Inr Some y u by (auto simp: main_def)
        qed
      qed
    qed
  qed
  show ?thesis using found m jupyter_url_total by blast
qed

theorem rematch_succeeds_witness:
  "jupyter_url ''[I 10:21:07 NotebookApp] http://10.0.0.5:9700/?token=abc123 :: ready'' =
     Inr ''http://10.0.0.5:9700/?token=abc123'' \<and>
   (\<exists>a b c d port token.
      ''http://10.0.0.5:9700/?token=abc123'' =
        ''http://'' @ a @ ''.'' @ b @ ''.'' @ c @ ''.'' @ d @ '':'' @ port @ ''/?token='' @ token \<and>
      parse_url ''http://10.0.0.5:9700/?token=abc123'' =
        Inr (Some (a @ ''.'' @ b @ ''.'' @ c @ ''.'' @ d, port, token))) \<and>
   (\<exists>r s'. main scenario init = Some (r, s') \<and> r \<noteq> Inl (UnboundLocalError ''port''))"
proof -
  have j: "jupyter_url ''[I 10:21:07 NotebookApp] http://10.0.0.5:9700/?token=abc123 :: ready'' =
             Inr ''http://10.0.0.5:9700/?token=abc123''"
    by code_simp
  have n: "''http://10.0.0.5:9700/?token=abc123'' \<noteq> []" by simp
  have m: "map_option fst (main scenario init) = Some (Inr ())" by code_simp
  then obtain r s' where ms: "main scenario init = Some (r, s')" by auto
  note t = rematch_succeeds
             [of "''[I 10:21:07 NotebookApp] http://10.0.0.5:9700/?token=abc123 :: ready''"
                 "''http://10.0.0.5:9700/?token=abc123''"]
  have "\<exists>a b c d port token.
      ''http://10.0.0.5:9700/?token=abc123'' =
        ''http://'' @ a @ ''.'' @ b @ ''.'' @ c @ ''.'' @ d @ '':'' @ port @ ''/?token='' @ token \<and>
      parse_url ''http://10.0.0.5:9700/?token=abc123'' =
        Inr (Some (a @ ''.'' @ b @ ''.'' @ c @ ''.'' @ d, port, token))"
    using t j n by blast
  moreover have "r \<noteq> Inl (UnboundLocalError ''port'')" using t ms by blast
  ultimately show ?thesis using j ms by blast
qed




end
